theory Spec2Isabelle
  imports Complex_Main
begin

unbundle bit_operations_syntax

section \<open>Numbers\<close>

text \<open>
  The spectrogram generator computes with JavaScript numbers. A value of type \<open>number\<close> is
  a real, or one of the special values \<open>NaN\<close>, \<open>+Infinity\<close>, \<open>-Infinity\<close>. Reading a typed
  array out of range gives \<open>undefined\<close>, which every arithmetic operation turns into \<open>NaN\<close>;
  the model reads \<open>NaN\<close> there. The sign of zero is not modelled.

  \<^item> \<open>fl x\<close> is the binary64 number nearest to \<open>x\<close>, ties to even, with no bound on the
    exponent. The operations \<open>add64\<close>, \<open>sub64\<close>, \<open>mul64\<close>, \<open>div64\<close> round their exact
    result with it. They are used on frame positions, window coefficients, twiddle factors
    and the contents of \<open>Float32Array\<close>s, whose sums, products and quotients stay inside
    the range of binary64.

  \<^item> \<open>Math.cos\<close>, \<open>Math.sin\<close>, \<open>Math.log10\<close>, \<open>Math.atan\<close> and \<open>Math.pow\<close> are
    implementation-approximated in the language; the model takes the binary64 number
    nearest to the exact value, which is exact where the exact value is a binary64 number
    (\<open>cos 0 = 1\<close>, \<open>sin 0 = 0\<close>). \<open>Math.PI\<close> is \<open>fl pi\<close>.

  \<^item> An element of a \<open>Float32Array\<close> holds a binary32 number: \<open>store32\<close> is the rounding
    of a write, to nearest, ties to even, with gradual underflow below \<open>2^-126\<close> and
    overflow to an infinity from \<open>2^128\<close> on.

  \<^item> The sum of squares of the power spectrum, the decibel conversion, the time stamps of
    the frames and the normalization of a pixel are kept in exact arithmetic on the finite
    values.
\<close>

subsection \<open>Binary64 rounding\<close>

definition round_even :: "real \<Rightarrow> int" where
  "round_even x = (let f = \<lfloor>x\<rfloor>; d = x - of_int f in
     if d < 1/2 then f else if 1/2 < d then f + 1 else if even f then f else f + 1)"

definition fl :: "real \<Rightarrow> real" where
  "fl x = (if x = 0 then 0 else
     let e = real_of_int (\<lfloor>log 2 \<bar>x\<bar>\<rfloor> - 52)
     in of_int (round_even (x / 2 powr e)) * 2 powr e)"

text \<open>
  \<open>fround32 x\<close> is \<open>x\<close> rounded to the binary32 grid: 24 significant bits, least exponent
  \<open>-149\<close>; the range is checked by \<open>store32\<close> below.
\<close>

definition fround32 :: "real \<Rightarrow> real" where
  "fround32 x = (if x = 0 then 0 else
     let e = real_of_int (max (\<lfloor>log 2 \<bar>x\<bar>\<rfloor> - 23) (- 149))
     in of_int (round_even (x / 2 powr e)) * 2 powr e)"

subsection \<open>JavaScript numbers with their special values\<close>

datatype number = NaN | NegInf | Fin real | PosInf

text \<open>Writing a number into an element of a \<open>Float32Array\<close>.\<close>

fun store32 :: "number \<Rightarrow> number" where
  "store32 (Fin x) =
     (if 2 ^ 128 \<le> \<bar>fround32 x\<bar> then (if 0 < x then PosInf else NegInf) else Fin (fround32 x))"
| "store32 v = v"

fun nneg :: "number \<Rightarrow> number" where
  "nneg NaN = NaN"
| "nneg NegInf = PosInf"
| "nneg (Fin x) = Fin (- x)"
| "nneg PosInf = NegInf"

fun nadd :: "number \<Rightarrow> number \<Rightarrow> number" where
  "nadd (Fin x) (Fin y) = Fin (x + y)"
| "nadd NaN _ = NaN"
| "nadd _ NaN = NaN"
| "nadd PosInf NegInf = NaN"
| "nadd NegInf PosInf = NaN"
| "nadd PosInf _ = PosInf"
| "nadd NegInf _ = NegInf"
| "nadd (Fin x) y = y"

definition nsub :: "number \<Rightarrow> number \<Rightarrow> number" where
  "nsub x y = nadd x (nneg y)"

text \<open>The sign of a number; \<open>inf_of_sign\<close> is the infinity of that sign, \<open>NaN\<close> for sign 0.\<close>

fun nsign :: "number \<Rightarrow> real" where
  "nsign NaN = 0"
| "nsign NegInf = - 1"
| "nsign (Fin x) = sgn x"
| "nsign PosInf = 1"

definition inf_of_sign :: "real \<Rightarrow> number" where
  "inf_of_sign s = (if s = 0 then NaN else if 0 < s then PosInf else NegInf)"

fun nmul :: "number \<Rightarrow> number \<Rightarrow> number" where
  "nmul (Fin x) (Fin y) = Fin (x * y)"
| "nmul NaN _ = NaN"
| "nmul _ NaN = NaN"
| "nmul x y = inf_of_sign (nsign x * nsign y)"

text \<open>Division; a zero divisor counts as \<open>+0\<close>.\<close>

fun ndiv :: "number \<Rightarrow> number \<Rightarrow> number" where
  "ndiv (Fin x) (Fin y) = (if y = 0 then inf_of_sign (sgn x) else Fin (x / y))"
| "ndiv NaN _ = NaN"
| "ndiv _ NaN = NaN"
| "ndiv (Fin x) _ = Fin 0"
| "ndiv PosInf (Fin y) = (if y < 0 then NegInf else PosInf)"
| "ndiv NegInf (Fin y) = (if y < 0 then PosInf else NegInf)"
| "ndiv _ _ = NaN"

text \<open>\<open>nless x y\<close> is the comparison \<open>x < y\<close>: false as soon as one side is \<open>NaN\<close>.\<close>

fun nless :: "number \<Rightarrow> number \<Rightarrow> bool" where
  "nless (Fin x) (Fin y) = (x < y)"
| "nless NaN _ = False"
| "nless _ NaN = False"
| "nless NegInf NegInf = False"
| "nless NegInf _ = True"
| "nless PosInf _ = False"
| "nless (Fin x) PosInf = True"
| "nless (Fin x) NegInf = False"

definition ngreater :: "number \<Rightarrow> number \<Rightarrow> bool" where
  "ngreater x y = nless y x"

text \<open>
  \<open>Math.min\<close>, \<open>Math.max\<close> and \<open>Math.floor\<close>, and the exact values of the cosine, the sine and
  the decimal logarithm.
\<close>

definition nmin :: "number \<Rightarrow> number \<Rightarrow> number" where
  "nmin x y = (if x = NaN \<or> y = NaN then NaN else if nless y x then y else x)"

definition nmax :: "number \<Rightarrow> number \<Rightarrow> number" where
  "nmax x y = (if x = NaN \<or> y = NaN then NaN else if nless x y then y else x)"

fun nfloor :: "number \<Rightarrow> number" where
  "nfloor (Fin x) = Fin (of_int \<lfloor>x\<rfloor>)"
| "nfloor x = x"

fun ncos :: "number \<Rightarrow> number" where
  "ncos (Fin x) = Fin (cos x)"
| "ncos _ = NaN"

fun nsin :: "number \<Rightarrow> number" where
  "nsin (Fin x) = Fin (sin x)"
| "nsin _ = NaN"

fun nlog10 :: "number \<Rightarrow> number" where
  "nlog10 (Fin x) = (if x < 0 then NaN else if x = 0 then NegInf else Fin (log 10 x))"
| "nlog10 PosInf = PosInf"
| "nlog10 _ = NaN"

definition nle :: "number \<Rightarrow> number \<Rightarrow> bool" where
  "nle x y = (nless x y \<or> (x = y \<and> x \<noteq> NaN))"

fun natan :: "number \<Rightarrow> number" where
  "natan NaN = NaN"
| "natan NegInf = Fin (- pi / 2)"
| "natan (Fin x) = Fin (arctan x)"
| "natan PosInf = Fin (pi / 2)"

text \<open>\<open>npow10 x\<close> is \<open>Math.pow(10, x)\<close>; \<open>nmod1 x\<close> is \<open>x % 1\<close> for \<open>x\<close> not negative.\<close>

fun npow10 :: "number \<Rightarrow> number" where
  "npow10 NaN = NaN"
| "npow10 NegInf = Fin 0"
| "npow10 (Fin x) = Fin (10 powr x)"
| "npow10 PosInf = PosInf"

fun nmod1 :: "number \<Rightarrow> number" where
  "nmod1 (Fin x) = Fin (x - of_int \<lfloor>x\<rfloor>)"
| "nmod1 _ = NaN"

text \<open>Rounding the finite result of an operation to binary64.\<close>

fun nfl :: "number \<Rightarrow> number" where
  "nfl (Fin x) = Fin (fl x)"
| "nfl x = x"

text \<open>The binary64 operations \<open>+\<close>, \<open>-\<close>, \<open>*\<close>, \<open>/\<close> and the functions of \<open>Math\<close>.\<close>

definition add64 :: "number \<Rightarrow> number \<Rightarrow> number" where
  "add64 x y = nfl (nadd x y)"

definition sub64 :: "number \<Rightarrow> number \<Rightarrow> number" where
  "sub64 x y = nfl (nsub x y)"

definition mul64 :: "number \<Rightarrow> number \<Rightarrow> number" where
  "mul64 x y = nfl (nmul x y)"

definition div64 :: "number \<Rightarrow> number \<Rightarrow> number" where
  "div64 x y = nfl (ndiv x y)"

definition Math_PI :: real where
  "Math_PI = fl pi"

definition Math_cos :: "number \<Rightarrow> number" where
  "Math_cos x = nfl (ncos x)"

definition Math_sin :: "number \<Rightarrow> number" where
  "Math_sin x = nfl (nsin x)"

definition Math_log10 :: "number \<Rightarrow> number" where
  "Math_log10 x = nfl (nlog10 x)"

definition Math_atan :: "number \<Rightarrow> number" where
  "Math_atan x = nfl (natan x)"

definition Math_pow10 :: "number \<Rightarrow> number" where
  "Math_pow10 x = nfl (npow10 x)"

subsection \<open>Arrays\<close>

text \<open>
  A \<open>Float32Array\<close> has a fixed length: a read out of range gives \<open>undefined\<close> (here
  \<open>NaN\<close>, its value in arithmetic) and a write out of range is dropped. A write in range
  rounds the value to binary32.
\<close>

definition ta_get :: "number list \<Rightarrow> nat \<Rightarrow> number" where
  "ta_get xs i = (if i < length xs then xs ! i else NaN)"

definition ta_get_int :: "number list \<Rightarrow> int \<Rightarrow> number" where
  "ta_get_int xs j = (if 0 \<le> j then ta_get xs (nat j) else NaN)"

definition ta_set :: "number list \<Rightarrow> nat \<Rightarrow> number \<Rightarrow> number list" where
  "ta_set xs i v = (if i < length xs then xs[i := store32 v] else xs)"

text \<open>
  An ordinary array grows when written past its end; the holes read as \<open>undefined\<close>.
  Reading a row of a matrix out of range gives \<open>undefined\<close>, here \<open>None\<close>: using it as
  an array throws a \<open>TypeError\<close>.
\<close>

definition arr_set :: "number list \<Rightarrow> nat \<Rightarrow> number \<Rightarrow> number list" where
  "arr_set xs i v =
     (if i < length xs then xs[i := v] else xs @ replicate (i - length xs) NaN @ [v])"

definition row :: "'a list \<Rightarrow> int \<Rightarrow> 'a option" where
  "row xs j = (if 0 \<le> j \<and> nat j < length xs then Some (xs ! nat j) else None)"

fun rowAt :: "'a list \<Rightarrow> number \<Rightarrow> 'a option" where
  "rowAt xs (Fin k) = (if of_int \<lfloor>k\<rfloor> = k then row xs \<lfloor>k\<rfloor> else None)"
| "rowAt xs _ = None"

section \<open>Constants\<close>

definition MIN_DB_DISPLAY :: real where "MIN_DB_DISPLAY = - 120"
definition MAX_DB_THEORETICAL :: real where "MAX_DB_THEORETICAL = 0"
definition REFERENCE_LEVEL :: real where "REFERENCE_LEVEL = 1"
definition MIN_POWER_VALUE :: real where "MIN_POWER_VALUE = 1 / 10 ^ 12"
definition DEFAULT_FFT_SIZE :: nat where "DEFAULT_FFT_SIZE = 2048"
definition DEFAULT_HOP_SIZE :: nat where "DEFAULT_HOP_SIZE = 512"

datatype WindowType = HANNING | HAMMING | BLACKMAN | RECTANGULAR

section \<open>From samples to decibels\<close>

subsection \<open>Window functions\<close>

text \<open>
  \<open>windowValue windowType i n\<close> is the coefficient of sample \<open>i\<close> in a frame of \<open>n\<close>
  samples, and \<open>windowPhase c i n\<close> is \<open>Math.cos((c * Math.PI * i) / (n - 1))\<close> for \<open>c\<close> equal
  to 2 or 4. For \<open>n = 1\<close> the quotient is \<open>0 / 0\<close>. The decimal literals of the coefficients
  are binary64 numbers.
\<close>

definition windowPhase :: "real \<Rightarrow> nat \<Rightarrow> nat \<Rightarrow> number" where
  "windowPhase c i n =
     Math_cos (div64 (mul64 (mul64 (Fin c) (Fin Math_PI)) (Fin (real i))) (Fin (real n - 1)))"

fun windowValue :: "WindowType \<Rightarrow> nat \<Rightarrow> nat \<Rightarrow> number" where
  "windowValue HANNING i n = mul64 (Fin (1/2)) (sub64 (Fin 1) (windowPhase 2 i n))"
| "windowValue HAMMING i n =
     sub64 (Fin (fl (54/100))) (mul64 (Fin (fl (46/100))) (windowPhase 2 i n))"
| "windowValue BLACKMAN i n =
     add64 (sub64 (Fin (fl (42/100))) (mul64 (Fin (1/2)) (windowPhase 2 i n)))
           (mul64 (Fin (fl (8/100))) (windowPhase 4 i n))"
| "windowValue RECTANGULAR i n = Fin 1"

definition applyWindow :: "number list \<Rightarrow> WindowType \<Rightarrow> number list" where
  "applyWindow samples windowType =
     fold (\<lambda>i windowed.
             ta_set windowed i (mul64 (ta_get samples i) (windowValue windowType i (length samples))))
          [0..<length samples] (replicate (length samples) (Fin 0))"

subsection \<open>The fast Fourier transform\<close>

text \<open>
  \<open>reverseBits x bits\<close>: the loop \<open>for (i = 0; i < bits; i++)\<close> runs \<open>\<lceil>bits\<rceil>\<close> times;
  \<open>bits\<close> is \<open>Math.log2(n)\<close>, an integer exactly when \<open>n\<close> is a power of two. Each round
  appends the lowest bit of \<open>x\<close> to \<open>result\<close>. The operators \<open><<\<close>, \<open>|\<close>, \<open>&\<close> and \<open>>>\<close> work on
  32-bit signed integers: they first wrap their operands into the range from \<open>-2^31\<close> to
  \<open>2^31 - 1\<close>, which is \<open>signed_take_bit 31\<close>, and \<open>>>\<close> keeps the sign.
\<close>

fun reverseBits_loop :: "nat \<Rightarrow> int \<Rightarrow> int \<Rightarrow> int" where
  "reverseBits_loop 0 x result = result"
| "reverseBits_loop (Suc k) x result =
     reverseBits_loop k (drop_bit 1 (signed_take_bit 31 x))
       (signed_take_bit 31 (push_bit 1 (signed_take_bit 31 result))
          OR (signed_take_bit 31 x AND 1))"

definition reverseBits :: "nat \<Rightarrow> real \<Rightarrow> int" where
  "reverseBits x bits = reverseBits_loop (nat \<lceil>bits\<rceil>) (int x) 0"

text \<open>The complex spectrum is interleaved: real part at \<open>2 * i\<close>, imaginary part at \<open>2 * i + 1\<close>.\<close>

definition bitReverse :: "number list \<Rightarrow> number list" where
  "bitReverse samples = (let n = length samples in
     fold (\<lambda>i c. ta_set (ta_set c (i * 2) (ta_get_int samples (reverseBits i (log 2 (real n)))))
                          (i * 2 + 1) (Fin 0))
          [0..<n] (replicate (n * 2) (Fin 0)))"

text \<open>
  One butterfly. The angle step \<open>(-2 * Math.PI) / size\<close>, the angle, its cosine and sine,
  the products and the sums are binary64 operations; the four results are written into the
  \<open>Float32Array\<close>.
\<close>

definition butterfly :: "nat \<Rightarrow> nat \<Rightarrow> nat \<Rightarrow> number list \<Rightarrow> number list" where
  "butterfly sz start i c = (let
       halfSize = sz div 2;
       angleStep = div64 (mul64 (Fin (- 2)) (Fin Math_PI)) (Fin (real sz));
       angle = mul64 angleStep (Fin (real i));
       cosA = Math_cos angle;
       sinA = Math_sin angle;
       evenReal = ta_get c ((start + i) * 2);
       evenImag = ta_get c ((start + i) * 2 + 1);
       oddReal = ta_get c ((start + i + halfSize) * 2);
       oddImag = ta_get c ((start + i + halfSize) * 2 + 1);
       tempReal = sub64 (mul64 cosA oddReal) (mul64 sinA oddImag);
       tempImag = add64 (mul64 cosA oddImag) (mul64 sinA oddReal);
       c1 = ta_set c ((start + i + halfSize) * 2) (sub64 evenReal tempReal);
       c2 = ta_set c1 ((start + i + halfSize) * 2 + 1) (sub64 evenImag tempImag);
       c3 = ta_set c2 ((start + i) * 2) (add64 evenReal tempReal)
     in ta_set c3 ((start + i) * 2 + 1) (add64 evenImag tempImag))"

text \<open>
  The loop over the blocks of one pass, \<open>for (start = 0; start < n; start += size)\<close>, and
  the loop over the passes, \<open>for (size = 2; size <= n; size *= 2)\<close>. The passes start at
  \<open>size = 2\<close>, so \<open>size\<close> is never 0 and \<open>size / 2\<close> is an integer.
\<close>

function fftBlocks :: "nat \<Rightarrow> nat \<Rightarrow> nat \<Rightarrow> number list \<Rightarrow> number list" where
  "fftBlocks sz n start c =
     (if start < n \<and> 0 < sz
      then fftBlocks sz n (start + sz) (fold (butterfly sz start) [0..<sz div 2] c)
      else c)"
  by pat_completeness auto
termination
  by (relation "measure (\<lambda>(sz, n, start, c). n - start)") auto

declare fftBlocks.simps [simp del]

function fftPasses :: "nat \<Rightarrow> nat \<Rightarrow> number list \<Rightarrow> number list" where
  "fftPasses n sz c =
     (if sz \<le> n \<and> 0 < sz
      then fftPasses n (sz * 2) (fftBlocks sz n 0 c)
      else c)"
  by pat_completeness auto
termination
  by (relation "measure (\<lambda>(n, sz, c). Suc n - sz)") auto

declare fftPasses.simps [simp del]

record FFTResult =
  complexValues :: "number list"
  fft_size :: nat

definition performFFT :: "number list \<Rightarrow> FFTResult" where
  "performFFT samples = (let n = length samples in
     \<lparr>complexValues = fftPasses n 2 (bitReverse samples), fft_size = n\<rparr>)"

subsection \<open>Power and decibels\<close>

datatype error = RangeError | TypeError | CanvasTooLarge

record PowerSpectrum =
  powerValues :: "number list"
  numBins :: real
  ps_frequencyResolution :: real

text \<open>
  \<open>new Array(fftSize / 2)\<close> throws a \<open>RangeError\<close> when \<open>fftSize / 2\<close> is not an integer.
\<close>

definition calculatePowerSpectrum :: "FFTResult \<Rightarrow> nat \<Rightarrow> error + PowerSpectrum" where
  "calculatePowerSpectrum fftResult fftSize =
     (if odd fftSize then Inl RangeError
      else Inr \<lparr>powerValues =
                  map (\<lambda>i. let re = ta_get (complexValues fftResult) (i * 2);
                                im = ta_get (complexValues fftResult) (i * 2 + 1)
                            in nadd (nmul re re) (nmul im im))
                      [0..<fftSize div 2],
                numBins = real fftSize / 2,
                ps_frequencyResolution =
                  (if 0 < fft_size fftResult then 1 / real (fft_size fftResult) else 0)\<rparr>)"

record DBSpectrum =
  dbValues :: "number list"
  db_numBins :: real
  referenceLevel :: real
  db_minDb :: number
  db_maxDb :: number

definition powerToDb :: "nat \<Rightarrow> number \<Rightarrow> number" where
  "powerToDb fftSize pw = (let
       normalizationFactor = real fftSize * real fftSize;
       normalizedPower = ndiv pw (Fin normalizationFactor)
     in if ngreater normalizedPower (Fin MIN_POWER_VALUE)
        then nmul (Fin 10) (nlog10 (ndiv normalizedPower (Fin REFERENCE_LEVEL)))
        else Fin MIN_DB_DISPLAY)"

definition convertToDBSpectrum :: "PowerSpectrum \<Rightarrow> nat \<Rightarrow> DBSpectrum" where
  "convertToDBSpectrum powerSpectrum fftSize = (let
       dbs = map (powerToDb fftSize) (powerValues powerSpectrum)
     in \<lparr>dbValues = dbs,
         db_numBins = numBins powerSpectrum,
         referenceLevel = REFERENCE_LEVEL,
         db_minDb = fold (\<lambda>d m. nmin m d) dbs PosInf,
         db_maxDb = fold (\<lambda>d m. nmax m d) dbs NegInf\<rparr>)"

subsection \<open>Frames\<close>

record AudioData =
  ad_samples :: "number list"
  ad_sampleRate :: real
  ad_duration :: real

record SpectrogramFrame =
  frequencyBins :: "number list"
  timePosition :: number
  frameDuration :: number

record SpectrogramData =
  sd_frames :: "SpectrogramFrame list"
  sd_sampleRate :: real
  sd_fftSize :: nat
  sd_hopSize :: nat
  sd_duration :: real
  sd_numFrequencyBins :: real
  sd_frequencyResolution :: number
  sd_timeResolution :: number

text \<open>
  A call returns a value, throws, or never returns (a loop whose bound is \<open>+Infinity\<close>).
\<close>

datatype 'a outcome = Returns 'a | Throws error | Hangs

text \<open>
  The samples of one frame: a zero-filled \<open>Float32Array(fftSize)\<close> into which the
  available samples are copied. Sample positions, lengths and loop counters are integers
  far below \<open>2^53\<close>, where the arithmetic of binary64 is that of the integers.
\<close>

definition frameSamples :: "number list \<Rightarrow> int \<Rightarrow> nat \<Rightarrow> number list" where
  "frameSamples samples startSample fftSize = (let
       endSample = min (startSample + int fftSize) (int (length samples));
       availableSamples = endSample - startSample
     in fold (\<lambda>i fs. ta_set fs i (ta_get_int samples (startSample + int i)))
             [0..<nat availableSamples] (replicate fftSize (Fin 0)))"

text \<open>The body of the frame loop of \<open>calculateSpectrogram\<close>. The window is always Hanning.\<close>

definition spectrogramFrame ::
  "AudioData \<Rightarrow> real \<Rightarrow> int \<Rightarrow> nat \<Rightarrow> nat \<Rightarrow> nat \<Rightarrow> error + SpectrogramFrame" where
  "spectrogramFrame audioData startTime startFrame fftSize hopSize frame = (let
       startSample = startFrame + int frame * int hopSize;
       windowedSamples =
         applyWindow (frameSamples (ad_samples audioData) startSample fftSize) HANNING;
       fftResult = performFFT windowedSamples
     in case calculatePowerSpectrum fftResult fftSize of
          Inl e \<Rightarrow> Inl e
        | Inr powerSpectrum \<Rightarrow>
            Inr \<lparr>frequencyBins = dbValues (convertToDBSpectrum powerSpectrum fftSize),
                 timePosition = nadd (Fin startTime)
                   (ndiv (Fin (real frame * real hopSize)) (Fin (ad_sampleRate audioData))),
                 frameDuration = ndiv (Fin (real hopSize)) (Fin (ad_sampleRate audioData))\<rparr>)"

text \<open>Running the loop body for the frame indices in order, up to the first exception.\<close>

fun collectFrames :: "(nat \<Rightarrow> error + 'a) \<Rightarrow> nat list \<Rightarrow> error + 'a list" where
  "collectFrames body [] = Inr []"
| "collectFrames body (i # rest) =
     (case body i of
        Inl e \<Rightarrow> Inl e
      | Inr x \<Rightarrow> (case collectFrames body rest of Inl e \<Rightarrow> Inl e | Inr xs \<Rightarrow> Inr (x # xs)))"

text \<open>
  How often \<open>for (frame = 0; frame < numFrames; frame++)\<close> runs: never for \<open>NaN\<close> and
  \<open>-Infinity\<close>, without end for \<open>+Infinity\<close>.
\<close>

fun loopCount :: "number \<Rightarrow> nat option" where
  "loopCount (Fin k) = Some (nat \<lceil>k\<rceil>)"
| "loopCount PosInf = None"
| "loopCount _ = Some 0"

text \<open>
  \<open>calculateSpectrogram\<close>. The clamped duration, the first and the last sample position and
  the number of frames are computed in binary64: the difference, the sum, the products
  and the quotient round before \<open>Math.floor\<close> is taken. With \<open>hopSize = 0\<close> the frame count
  is a quotient by zero. When it is \<open>+Infinity\<close> the loop does not end unless its body
  throws, and the body throws at frame 0 or never: its only exception comes from
  \<open>fftSize\<close>, the same in every round.
\<close>

definition calculateSpectrogram ::
  "AudioData \<Rightarrow> real \<Rightarrow> real \<Rightarrow> nat \<Rightarrow> nat \<Rightarrow> SpectrogramData outcome" where
  "calculateSpectrogram audioData startTime dur fftSize hopSize = (let
       actualDuration = min dur (fl (ad_duration audioData - startTime));
       startFrame = \<lfloor>fl (startTime * ad_sampleRate audioData)\<rfloor>;
       endFrame = \<lfloor>fl (fl (startTime + actualDuration) * ad_sampleRate audioData)\<rfloor>;
       numFrames = add64 (nfloor (div64 (sub64 (sub64 (Fin (of_int endFrame)) (Fin (of_int startFrame)))
                                               (Fin (real fftSize)))
                                        (Fin (real hopSize)))) (Fin 1);
       body = spectrogramFrame audioData startTime startFrame fftSize hopSize
     in case loopCount numFrames of
          None \<Rightarrow> (case body 0 of Inl e \<Rightarrow> Throws e | Inr _ \<Rightarrow> Hangs)
        | Some k \<Rightarrow>
            (case collectFrames body [0..<k] of
               Inl e \<Rightarrow> Throws e
             | Inr frames \<Rightarrow>
                 Returns \<lparr>sd_frames = frames,
                          sd_sampleRate = ad_sampleRate audioData,
                          sd_fftSize = fftSize,
                          sd_hopSize = hopSize,
                          sd_duration = actualDuration,
                          sd_numFrequencyBins = real fftSize / 2,
                          sd_frequencyResolution =
                            ndiv (Fin (ad_sampleRate audioData)) (Fin (real fftSize)),
                          sd_timeResolution =
                            ndiv (Fin (real hopSize)) (Fin (ad_sampleRate audioData))\<rparr>))"

text \<open>The number of frames, for a positive hop size.\<close>

definition frameCount :: "AudioData \<Rightarrow> real \<Rightarrow> real \<Rightarrow> nat \<Rightarrow> nat \<Rightarrow> nat" where
  "frameCount audioData startTime dur fftSize hopSize = (let
       actualDuration = min dur (fl (ad_duration audioData - startTime));
       startFrame = \<lfloor>fl (startTime * ad_sampleRate audioData)\<rfloor>;
       endFrame = \<lfloor>fl (fl (startTime + actualDuration) * ad_sampleRate audioData)\<rfloor>
     in nat \<lceil>fl (real_of_int \<lfloor>fl (fl (fl (of_int endFrame - of_int startFrame) - real fftSize)
                                      / real hopSize)\<rfloor> + 1)\<rceil>)"

subsection \<open>The global decibel range\<close>

record GlobalDBRange =
  minDb :: number
  maxDb :: number
  dynamicRange :: number

definition scanDb :: "number \<Rightarrow> number \<times> number \<Rightarrow> number \<times> number" where
  "scanDb db acc = (case acc of (globalMinDb, globalMaxDb) \<Rightarrow>
     if ngreater db (Fin MIN_DB_DISPLAY)
     then (nmin globalMinDb db, nmax globalMaxDb db)
     else (globalMinDb, globalMaxDb))"

definition scanFrames :: "SpectrogramFrame list \<Rightarrow> number \<times> number" where
  "scanFrames frames =
     fold (\<lambda>frame acc. fold scanDb (frequencyBins frame) acc) frames (PosInf, NegInf)"

text \<open>The fall-back values for a scan that met no value above the display floor.\<close>

definition globalRange :: "number \<times> number \<Rightarrow> GlobalDBRange" where
  "globalRange scanned = (case scanned of (scannedMin, scannedMax) \<Rightarrow>
     let globalMinDb = (if scannedMin = PosInf then Fin MIN_DB_DISPLAY else scannedMin);
         globalMaxDb = (if scannedMax = NegInf then Fin MAX_DB_THEORETICAL else scannedMax)
     in \<lparr>minDb = globalMinDb, maxDb = globalMaxDb,
         dynamicRange = nsub globalMaxDb globalMinDb\<rparr>)"

definition calculateGlobalDbRange :: "AudioData \<Rightarrow> GlobalDBRange outcome" where
  "calculateGlobalDbRange audioData =
     (case calculateSpectrogram audioData 0 (ad_duration audioData)
             DEFAULT_FFT_SIZE DEFAULT_HOP_SIZE of
        Throws e \<Rightarrow> Throws e
      | Hangs \<Rightarrow> Hangs
      | Returns fullSpectrogramData \<Rightarrow>
          Returns (globalRange (scanFrames (sd_frames fullSpectrogramData))))"

section \<open>Temporal resampling\<close>

text \<open>
  The resampler works on the matrix of decibel values, one row per frame. The frame
  windows are computed in binary64: \<open>step = numFrames / targetWidth\<close> rounds, and so does
  each product \<open>i * step\<close>.
\<close>

definition peakStep :: "number list list \<Rightarrow> nat \<Rightarrow> number list \<Rightarrow> number list" where
  "peakStep spectrogramData frameIdx peakFrame = (let frame = spectrogramData ! frameIdx in
     fold (\<lambda>freqIdx pf. arr_set pf freqIdx (nmax (ta_get pf freqIdx) (ta_get frame freqIdx)))
          [0..<length frame] peakFrame)"

text \<open>\<open>frameBound step i\<close> is \<open>Math.floor(i * step)\<close>; the product rounds to binary64.\<close>

definition frameBound :: "real \<Rightarrow> nat \<Rightarrow> int" where
  "frameBound step i = \<lfloor>fl (real i * step)\<rfloor>"

text \<open>
  One round of the loop of \<open>peakPreservingDownsample\<close>. The window lies inside the matrix:
  \<open>startFrame\<close> is not negative and \<open>endFrame\<close> is at most \<open>numFrames\<close>.
\<close>

definition peakColumn :: "number list list \<Rightarrow> real \<Rightarrow> nat \<Rightarrow> error + number list" where
  "peakColumn spectrogramData step i = (let
       numFrames = length spectrogramData;
       startFrame = frameBound step i;
       endFrame = min (frameBound step (i + 1)) (int numFrames);
       numFramesInWindow = endFrame - startFrame
     in if numFramesInWindow = 0 then
          (case row spectrogramData (min startFrame (int numFrames - 1)) of
             None \<Rightarrow> Inl TypeError
           | Some frame \<Rightarrow> Inr frame)
        else
          (case row spectrogramData 0 of
             None \<Rightarrow> Inl TypeError
           | Some first \<Rightarrow>
               Inr (fold (peakStep spectrogramData) [nat startFrame..<nat endFrame]
                         (replicate (length first) NegInf))))"

definition peakPreservingDownsample ::
  "number list list \<Rightarrow> nat \<Rightarrow> error + number list list" where
  "peakPreservingDownsample spectrogramData targetWidth = (let
       numFrames = length spectrogramData;
       step = fl (real numFrames / real targetWidth)
     in collectFrames (peakColumn spectrogramData step) [0..<targetWidth])"

definition bilinearValue ::
  "number list \<Rightarrow> number list \<Rightarrow> nat \<Rightarrow> number \<Rightarrow> nat \<Rightarrow> number" where
  "bilinearValue frameFloor frameCeil numFreqBins timeInterpFactor freqIdx = (let
       v00 = ta_get frameFloor freqIdx;
       v10 = ta_get frameCeil freqIdx;
       freqInterpFactor =
         nmod1 (nfl (ndiv (Fin (real freqIdx)) (Fin (real numFreqBins - 1))));
       v01 = (if freqIdx + 1 < numFreqBins then ta_get frameFloor (freqIdx + 1) else v00);
       v11 = (if freqIdx + 1 < numFreqBins then ta_get frameCeil (freqIdx + 1) else v10);
       c0 = nadd (nmul v00 (nsub (Fin 1) timeInterpFactor)) (nmul v10 timeInterpFactor);
       c1 = nadd (nmul v01 (nsub (Fin 1) timeInterpFactor)) (nmul v11 timeInterpFactor)
     in nadd (nmul c0 (nsub (Fin 1) freqInterpFactor)) (nmul c1 freqInterpFactor))"

definition bilinearColumn ::
  "number list list \<Rightarrow> nat \<Rightarrow> nat \<Rightarrow> nat \<Rightarrow> error + number list" where
  "bilinearColumn spectrogramData numFreqBins targetWidth i = (let
       numFrames = length spectrogramData;
       frameIndex = nfl (nmul (nfl (ndiv (Fin (real i)) (Fin (real targetWidth - 1))))
                              (Fin (real numFrames - 1)));
       frameIndexFloor = nfloor frameIndex;
       frameIndexCeil = nmin (nadd frameIndexFloor (Fin 1)) (Fin (real numFrames - 1));
       timeInterpFactor = nsub frameIndex frameIndexFloor
     in if numFreqBins = 0 then Inr []
        else
          (case (rowAt spectrogramData frameIndexFloor, rowAt spectrogramData frameIndexCeil) of
             (Some frameFloor, Some frameCeil) \<Rightarrow>
               Inr (map (bilinearValue frameFloor frameCeil numFreqBins timeInterpFactor)
                        [0..<numFreqBins])
           | _ \<Rightarrow> Inl TypeError))"

definition bilinearUpsample ::
  "number list list \<Rightarrow> nat \<Rightarrow> error + number list list" where
  "bilinearUpsample spectrogramData targetWidth =
     (case row spectrogramData 0 of
        None \<Rightarrow> Inl TypeError
      | Some first \<Rightarrow>
          collectFrames (bilinearColumn spectrogramData (length first) targetWidth)
                        [0..<targetWidth])"

text \<open>
  \<open>resampleSpectrogram\<close>. The strategies are fixed by the constants
  \<open>OPTIONS.UPSAMPLE_STRATEGY = 'bilinear'\<close> and \<open>OPTIONS.DOWNSAMPLE_STRATEGY = 'peak'\<close>, so
  \<open>selectUpsamplingStrategy\<close> is \<open>bilinearUpsample\<close> and \<open>selectDownsampleStrategy\<close> is
  \<open>peakPreservingDownsample\<close>.
\<close>

definition resampleSpectrogram ::
  "number list list \<Rightarrow> nat \<Rightarrow> error + number list list" where
  "resampleSpectrogram spectrogramData targetWidth = (let
       numFrames = length spectrogramData
     in if numFrames = 0 then Inr []
        else if numFrames = targetWidth then Inr spectrogramData
        else if numFrames < targetWidth then bilinearUpsample spectrogramData targetWidth
        else peakPreservingDownsample spectrogramData targetWidth)"

section \<open>Rasterization\<close>

datatype FrequencyScale = LINEAR | LOG | MEL | BARK | ERB

text \<open>
  The conversions between hertz and the mel, Bark and ERB scales, in binary64. The square
  \<open>Math.pow(hz / 7500, 2)\<close> is the rounded product.
\<close>

definition hzToMel :: "number \<Rightarrow> number" where
  "hzToMel hz = mul64 (Fin 2595) (Math_log10 (add64 (Fin 1) (div64 hz (Fin 700))))"

definition melToHz :: "number \<Rightarrow> number" where
  "melToHz mel = mul64 (Fin 700) (sub64 (Math_pow10 (div64 mel (Fin 2595))) (Fin 1))"

definition hzToBark :: "number \<Rightarrow> number" where
  "hzToBark hz = (let q = div64 hz (Fin 7500) in
     add64 (mul64 (Fin 13) (Math_atan (mul64 (Fin (fl (76 / 100000))) hz)))
           (mul64 (Fin (35 / 10)) (Math_atan (mul64 q q))))"

definition barkToHz :: "number \<Rightarrow> number" where
  "barkToHz bark =
     (if nle bark (Fin 0) then Fin 0
      else if nle (Fin 26) bark then Fin 20000
      else div64 (mul64 (Fin 1960) (add64 bark (Fin (fl (53 / 100)))))
                 (sub64 (Fin (fl (2681 / 100))) bark))"

definition hzToErb :: "number \<Rightarrow> number" where
  "hzToErb hz = mul64 (Fin (fl (214 / 10))) (Math_log10 (add64 (Fin 1) (div64 hz (Fin 229))))"

definition erbToHz :: "number \<Rightarrow> number" where
  "erbToHz erb = mul64 (Fin 229) (sub64 (Math_pow10 (div64 erb (Fin (fl (214 / 10))))) (Fin 1))"

text \<open>
  \<open>scaleRatio\<close> is the \<open>switch\<close> of \<open>getFrequencyIndex\<close>: the ratio of the Nyquist
  frequency for a normalized height, when no frequency range is given.
\<close>

fun scaleRatio :: "FrequencyScale \<Rightarrow> number \<Rightarrow> real \<Rightarrow> number" where
  "scaleRatio LINEAR normalizedY sampleRate = normalizedY"
| "scaleRatio LOG normalizedY sampleRate =
     Math_pow10 (mul64 normalizedY (Math_log10 (Fin (1/2))))"
| "scaleRatio MEL normalizedY sampleRate = (let
       melMin = hzToMel (Fin 0);
       melMax = hzToMel (Fin (sampleRate / 2));
       mel = add64 melMin (mul64 normalizedY (sub64 melMax melMin))
     in div64 (melToHz mel) (Fin (sampleRate / 2)))"
| "scaleRatio BARK normalizedY sampleRate = (let
       barkMin = hzToBark (Fin 0);
       barkMax = hzToBark (Fin (sampleRate / 2));
       bark = add64 barkMin (mul64 normalizedY (sub64 barkMax barkMin))
     in div64 (barkToHz bark) (Fin (sampleRate / 2)))"
| "scaleRatio ERB normalizedY sampleRate = (let
       erbMin = hzToErb (Fin 0);
       erbMax = hzToErb (Fin (sampleRate / 2));
       erb = add64 erbMin (mul64 normalizedY (sub64 erbMax erbMin))
     in div64 (erbToHz erb) (Fin (sampleRate / 2)))"

text \<open>
  \<open>getFrequencyIndex\<close>, in binary64: the normalized height is a rounded quotient and the
  index is the floor of a rounded product. \<open>minFrequency || 0\<close> and
  \<open>maxFrequency || sampleRate / 2\<close>: \<open>null\<close> and 0 give the default.
\<close>

definition getFrequencyIndex ::
  "nat \<Rightarrow> nat \<Rightarrow> nat \<Rightarrow> FrequencyScale \<Rightarrow> real \<Rightarrow> real option \<Rightarrow> real option \<Rightarrow> number" where
  "getFrequencyIndex y height numFrequencies scale sampleRate minFrequency maxFrequency = (let
       normalizedY = div64 (Fin (real height - 1 - real y)) (Fin (real height - 1));
       frequencyRatio =
         (if minFrequency \<noteq> None \<or> maxFrequency \<noteq> None then
            (let minFreq = (case minFrequency of None \<Rightarrow> 0 | Some f \<Rightarrow> f);
                 maxFreq = (case maxFrequency of
                              None \<Rightarrow> sampleRate / 2
                            | Some f \<Rightarrow> if f = 0 then sampleRate / 2 else f);
                 freq = add64 (Fin minFreq) (mul64 normalizedY (Fin (fl (maxFreq - minFreq))))
             in div64 freq (Fin (sampleRate / 2)))
          else scaleRatio scale normalizedY sampleRate);
       clampedRatio = nmax (Fin 0) (nmin (Fin 1) frequencyRatio)
     in nfloor (mul64 clampedRatio (Fin (real numFrequencies - 1))))"

text \<open>
  \<open>pixelDb\<close> is the statement \<open>const db = frame[freqIndex] || minDb\<close>: the operator \<open>||\<close>
  takes its right operand when the left one is \<open>undefined\<close>, \<open>NaN\<close> or 0.
\<close>

definition pixelDb :: "number list \<Rightarrow> number \<Rightarrow> real \<Rightarrow> number" where
  "pixelDb frame freqIndex min_db =
     (case rowAt frame freqIndex of
        None \<Rightarrow> Fin min_db
      | Some v \<Rightarrow> if v = Fin 0 \<or> v = NaN then Fin min_db else v)"

text \<open>
  The body of the pixel loop of \<open>createSpectrogramImage\<close> up to the clamped normalized
  value, which the intensity mapping and the palette then turn into a colour. With no
  column at all, \<open>frame\<close> is \<open>undefined\<close> and \<open>frame.length\<close> throws.
\<close>

definition pixelClamped ::
  "number list list \<Rightarrow> nat \<Rightarrow> nat \<Rightarrow> FrequencyScale \<Rightarrow> real \<Rightarrow> real option \<Rightarrow> real option
     \<Rightarrow> real \<Rightarrow> real \<Rightarrow> nat \<Rightarrow> nat \<Rightarrow> error + number" where
  "pixelClamped resampledData width height scale sampleRate minFrequency maxFrequency
       min_db max_db x y = (let
       dbRange = max_db - min_db;
       frameIndex = min ((int x * int (length resampledData)) div int width)
                        (int (length resampledData) - 1)
     in case row resampledData frameIndex of
          None \<Rightarrow> Inl TypeError
        | Some frame \<Rightarrow> (let
              freqIndex = getFrequencyIndex y height (length frame) scale sampleRate
                            minFrequency maxFrequency;
              db = pixelDb frame freqIndex min_db;
              normalized = (if ngreater db (Fin min_db)
                            then ndiv (nsub db (Fin min_db)) (Fin dbRange) else Fin 0)
            in Inr (nmax (Fin 0) (nmin (Fin 1) normalized))))"

section \<open>Silence\<close>

text \<open>
  A value is quiet when it is 0 or \<open>NaN\<close>. Quiet values stay quiet under the arithmetic of
  the transform, and their power is at the display floor.
\<close>

definition quiet :: "number \<Rightarrow> bool" where
  "quiet x = (x = Fin 0 \<or> x = NaN)"

section \<open>Colour palettes\<close>

record rgb =
  r :: int
  g :: int
  b :: int

text \<open>
  \<open>heatMap\<close>: the literals \<open>0.33\<close>, \<open>0.34\<close> and \<open>0.67\<close> of the source are the binary64
  numbers nearest to these decimals; every subtraction, division and multiplication rounds.
\<close>

definition heatMap :: "real \<Rightarrow> rgb" where
  "heatMap t0 = (let t = max 0 (min 1 t0) in
     if t < fl (33/100) then
       (let factor = fl (t / fl (33/100))
        in \<lparr>r = \<lfloor>fl (factor * 255)\<rfloor>, g = 0, b = 0\<rparr>)
     else if t < fl (67/100) then
       (let factor = fl (fl (t - fl (33/100)) / fl (34/100))
        in \<lparr>r = 255, g = \<lfloor>fl (factor * 255)\<rfloor>, b = 0\<rparr>)
     else
       (let factor = fl (fl (t - fl (67/100)) / fl (33/100))
        in \<lparr>r = 255, g = 255, b = \<lfloor>fl (factor * 255)\<rfloor>\<rparr>))"

section \<open>The discrete Fourier transform\<close>

text \<open>
  The transform that \<open>performFFT\<close> is meant to compute: entry \<open>k\<close> of the spectrum of
  \<open>n\<close> real samples is the sum of \<open>sample[j] * e^(-2 pi i j k / n)\<close>.
\<close>

definition dft :: "nat \<Rightarrow> (nat \<Rightarrow> real) \<Rightarrow> nat \<Rightarrow> complex" where
  "dft n x k = (\<Sum>j<n. of_real (x j) * cis (- 2 * pi * real j * real k / real n))"

text \<open>
  Reading an interleaved array as complex numbers: \<open>cval c p\<close> is entry \<open>p\<close>, and
  \<open>all_finite c n\<close> says that \<open>c\<close> holds \<open>n\<close> entries whose parts are all finite.
\<close>

fun the_fin :: "number \<Rightarrow> real" where
  "the_fin (Fin x) = x"
| "the_fin _ = 0"

definition cval :: "number list \<Rightarrow> nat \<Rightarrow> complex" where
  "cval c p = Complex (the_fin (c ! (p * 2))) (the_fin (c ! (p * 2 + 1)))"

definition all_finite :: "number list \<Rightarrow> nat \<Rightarrow> bool" where
  "all_finite c n = (length c = n * 2 \<and> list_all (\<lambda>v. v = Fin (the_fin v)) c)"

text \<open>
  One pass of butterflies of half width \<open>h\<close> in exact arithmetic, seen on the complex
  entries: the entry at offset \<open>t < h\<close> of a block becomes \<open>even + w * odd\<close>, the entry at
  offset \<open>t + h\<close> becomes \<open>even - w * odd\<close>, with \<open>w = e^(-2 pi i t / (2 h))\<close>.
\<close>

definition twiddle :: "nat \<Rightarrow> nat \<Rightarrow> complex" where
  "twiddle h t = cis (- 2 * pi / real (2 * h) * real t)"

definition pass_step :: "nat \<Rightarrow> (nat \<Rightarrow> complex) \<Rightarrow> nat \<Rightarrow> complex" where
  "pass_step h f p =
     (if p mod (2 * h) < h then f p + twiddle h (p mod (2 * h)) * f (p + h)
      else f (p - h) - twiddle h (p mod (2 * h) - h) * f p)"

text \<open>
  The same pass as the code computes it on finite values: the twiddle factor from the
  rounded angle, the rotation \<open>w * odd\<close> in binary64, the sum and the difference rounded
  to binary64 and then stored as binary32.
\<close>

definition twiddle64 :: "nat \<Rightarrow> nat \<Rightarrow> complex" where
  "twiddle64 sz i = (let angle = fl (fl (fl (- 2 * Math_PI) / real sz) * real i)
     in Complex (fl (cos angle)) (fl (sin angle)))"

definition rot64 :: "complex \<Rightarrow> complex \<Rightarrow> complex" where
  "rot64 w z = Complex (fl (fl (Re w * Re z) - fl (Im w * Im z)))
                       (fl (fl (Re w * Im z) + fl (Im w * Re z)))"

definition add32 :: "complex \<Rightarrow> complex \<Rightarrow> complex" where
  "add32 a z = Complex (fround32 (fl (Re a + Re z))) (fround32 (fl (Im a + Im z)))"

definition sub32 :: "complex \<Rightarrow> complex \<Rightarrow> complex" where
  "sub32 a z = Complex (fround32 (fl (Re a - Re z))) (fround32 (fl (Im a - Im z)))"

definition pass_fl :: "nat \<Rightarrow> (nat \<Rightarrow> complex) \<Rightarrow> nat \<Rightarrow> complex" where
  "pass_fl h f p =
     (if p mod (2 * h) < h
      then add32 (f p) (rot64 (twiddle64 (2 * h) (p mod (2 * h))) (f (p + h)))
      else sub32 (f (p - h)) (rot64 (twiddle64 (2 * h) (p mod (2 * h) - h)) (f p)))"

text \<open>
  The relative error of a rounding to binary64 and to binary32 is at most \<open>eps64\<close> and
  \<open>eps32\<close>; below the normal range of binary32 the absolute error is at most \<open>tiny32\<close>.
\<close>

definition eps64 :: real where
  "eps64 = 1 / 2 ^ 53"

definition eps32 :: real where
  "eps32 = 1 / 2 ^ 24"

definition tiny32 :: real where
  "tiny32 = 1 / 2 ^ 150"

text \<open>
  \<open>stage_err l\<close> bounds the distance between the computed and the exact entries after the
  passes up to size \<open>2^l\<close>, for samples of magnitude at most 1.
\<close>

definition stage_err :: "nat \<Rightarrow> real" where
  "stage_err l = 2 ^ l * (real l + 1) * (4 * eps32)"

text \<open>
  The bit reversal of \<open>x\<close> on \<open>k\<close> bits as a function on natural numbers, and the exact
  state after the passes up to size \<open>2^l\<close>, for \<open>2^m\<close> samples \<open>x\<close>: block \<open>q\<close> holds the
  transform of the \<open>2^l\<close> samples whose indices are the bit reversal of \<open>q\<close> plus the
  multiples of \<open>2^(m - l)\<close>.
\<close>

fun bitrev :: "nat \<Rightarrow> nat \<Rightarrow> nat \<Rightarrow> nat" where
  "bitrev 0 x acc = acc"
| "bitrev (Suc k) x acc = bitrev k (x div 2) (2 * acc + x mod 2)"

definition stage_dft :: "nat \<Rightarrow> (nat \<Rightarrow> real) \<Rightarrow> nat \<Rightarrow> nat \<Rightarrow> complex" where
  "stage_dft m x l p =
     dft (2 ^ l) (\<lambda>j. x (bitrev (m - l) (p div 2 ^ l) 0 + j * 2 ^ (m - l))) (p mod 2 ^ l)"

section \<open>Evaluating binary64 rounding\<close>

lemma floor_log2_eq:
  assumes "0 < x" "2 powr (of_int e) \<le> x" "x < 2 powr (of_int e + 1)"
  shows "\<lfloor>log 2 x\<rfloor> = e"
proof -
  have "log 2 (2 powr (of_int e)) \<le> log 2 x"
    using assms by (subst log_le_cancel_iff) auto
  moreover have "log 2 x < log 2 (2 powr (of_int e + 1))"
    using assms by (subst log_less_cancel_iff) auto
  ultimately show ?thesis
    by (intro floor_unique) auto
qed

text \<open>
  A positive \<open>x\<close> below \<open>2^53\<close> is rounded at the scale \<open>2^k\<close> that brings it into
  \<open>[2^52, 2^53)\<close>.
\<close>

lemma fl_pos_eval:
  fixes k :: nat
  assumes "2 ^ 52 \<le> x * 2 ^ k" "x * 2 ^ k < 2 ^ 53"
  shows "fl x = of_int (round_even (x * 2 ^ k)) / 2 ^ k"
proof -
  have pos: "0 < x"
  proof (rule ccontr)
    assume "\<not> 0 < x"
    then have "x * 2 ^ k \<le> 0"
      by (simp add: mult_nonpos_nonneg)
    with assms(1) show False by simp
  qed
  have k: "(2::real) powr (real_of_int (52 - int k - 52)) = 1 / 2 ^ k"
    by (simp add: powr_minus_divide powr_realpow)
  have "\<lfloor>log 2 \<bar>x\<bar>\<rfloor> = 52 - int k"
  proof (rule floor_log2_eq)
    show "0 < \<bar>x\<bar>" using pos by simp
    have "(2::real) powr (real_of_int (52 - int k)) = 2 ^ 52 / 2 ^ k"
      by (simp add: powr_diff powr_realpow)
    then show "2 powr (real_of_int (52 - int k)) \<le> \<bar>x\<bar>"
      using assms(1) pos by (simp add: divide_le_eq)
    have "(2::real) powr (real_of_int (52 - int k) + 1) = 2 ^ 53 / 2 ^ k"
      by (simp add: powr_diff powr_add powr_realpow)
    then show "\<bar>x\<bar> < 2 powr (real_of_int (52 - int k) + 1)"
      using assms(2) pos by (simp add: less_divide_eq)
  qed
  then have "fl x = of_int (round_even (x / 2 powr (real_of_int (52 - int k - 52))))
      * 2 powr (real_of_int (52 - int k - 52))"
    using pos by (simp add: fl_def Let_def)
  then show ?thesis
    unfolding k by simp
qed

lemma fl_zero [simp]: "fl 0 = 0"
  by (simp add: fl_def)

lemma lit_033: "fl (33/100) = 5944751508129055 / 2 ^ 54"
  by (subst fl_pos_eval[of _ 54]) (simp_all add: round_even_def)

lemma lit_034: "fl (34/100) = 6124895493223875 / 2 ^ 54"
  by (subst fl_pos_eval[of _ 54]) (simp_all add: round_even_def)

lemma lit_067: "fl (67/100) = 6034823500676465 / 2 ^ 53"
  by (subst fl_pos_eval[of _ 53]) (simp_all add: round_even_def)

subsection \<open>Numbers that are not changed by rounding\<close>

lemma round_even_of_int: "round_even (of_int k) = k"
  by (simp add: round_even_def)

lemma powr_int_nonneg:
  assumes "0 \<le> (d::int)"
  shows "(2::real) powr (of_int d) = of_int (2 ^ nat d)"
proof -
  have "(2::real) powr (of_int d) = 2 powr (real (nat d))"
    using assms by simp
  also have "\<dots> = 2 ^ nat d"
    by (simp add: powr_realpow)
  finally show ?thesis by simp
qed

text \<open>Rounding at a scale that divides the number leaves it unchanged.\<close>

lemma round_at_scale:
  assumes "e \<le> (j::int)"
  shows "real_of_int (round_even (of_int k * 2 powr (of_int j) / 2 powr (of_int e))) * 2 powr (of_int e)
           = of_int k * 2 powr (of_int j)"
proof -
  define z where "z = k * 2 ^ nat (j - e)"
  have q: "(2::real) powr (of_int j) / 2 powr (of_int e) = of_int (2 ^ nat (j - e))"
    using powr_int_nonneg[of "j - e"] assms by (simp add: powr_diff)
  have "real_of_int k * 2 powr (of_int j) / 2 powr (of_int e)
      = real_of_int k * (2 powr (of_int j) / 2 powr (of_int e))"
    by simp
  also have "\<dots> = of_int z"
    unfolding q z_def by simp
  finally have x: "real_of_int k * 2 powr (of_int j) / 2 powr (of_int e) = of_int z" .
  have "real_of_int (round_even (of_int k * 2 powr (of_int j) / 2 powr (of_int e))) * 2 powr (of_int e)
      = (real_of_int k * 2 powr (of_int j) / 2 powr (of_int e)) * 2 powr (of_int e)"
    unfolding x round_even_of_int ..
  then show ?thesis
    by simp
qed

lemma floor_log2_less:
  assumes "0 < x" "x < 2 powr (of_int n)"
  shows "\<lfloor>log 2 x\<rfloor> < n"
proof -
  have "log 2 x < log 2 (2 powr (of_int n))"
    using assms by (subst log_less_cancel_iff) auto
  then have "log 2 x < of_int n" by simp
  then show ?thesis by (simp add: floor_less_iff)
qed

lemma dyadic_bound:
  assumes "\<bar>k\<bar> < 2 ^ p" "k \<noteq> 0"
  shows "\<lfloor>log 2 \<bar>of_int k * 2 powr (of_int j)\<bar>\<rfloor> < int p + j"
proof (rule floor_log2_less)
  show "0 < \<bar>real_of_int k * 2 powr (of_int j)\<bar>" using assms by simp
  have "\<bar>real_of_int k\<bar> < 2 ^ p"
    using assms(1) by (metis of_int_abs of_int_less_numeral_power_cancel_iff)
  then have "\<bar>real_of_int k\<bar> * 2 powr (of_int j) < 2 ^ p * 2 powr (of_int j)"
    by simp
  also have "\<dots> = 2 powr (of_int (int p + j))"
    by (simp add: powr_add powr_realpow)
  finally show "\<bar>real_of_int k * 2 powr (of_int j)\<bar> < 2 powr (of_int (int p + j))"
    by (simp add: abs_mult)
qed

lemma fl_dyadic:
  assumes "\<bar>k\<bar> < 2 ^ 53"
  shows "fl (of_int k * 2 powr (of_int j)) = of_int k * 2 powr (of_int j)"
proof (cases "k = 0")
  case True
  then show ?thesis by (simp add: fl_def)
next
  case False
  have "\<lfloor>log 2 \<bar>of_int k * 2 powr (of_int j)\<bar>\<rfloor> - 52 \<le> j"
    using dyadic_bound[OF assms False, of j] by simp
  from round_at_scale[OF this] False show ?thesis
    by (simp add: fl_def Let_def)
qed

lemma fround32_dyadic:
  assumes "\<bar>k\<bar> < 2 ^ 24" "- 149 \<le> j"
  shows "fround32 (of_int k * 2 powr (of_int j)) = of_int k * 2 powr (of_int j)"
proof (cases "k = 0")
  case True
  then show ?thesis by (simp add: fround32_def)
next
  case False
  have "max (\<lfloor>log 2 \<bar>of_int k * 2 powr (of_int j)\<bar>\<rfloor> - 23) (- 149) \<le> j"
    using dyadic_bound[OF assms(1) False, of j] assms(2) by simp
  from round_at_scale[OF this] False show ?thesis
    by (simp add: fround32_def Let_def)
qed

lemma fl_of_int: "\<bar>k\<bar> < 2 ^ 53 \<Longrightarrow> fl (of_int k) = of_int k"
  using fl_dyadic[of k 0] by simp

lemma fl_of_nat: "n < 2 ^ 53 \<Longrightarrow> fl (real n) = real n"
  using fl_of_int[of "int n"] by simp

lemma fl_one [simp]: "fl 1 = 1"
  using fl_of_int[of 1] by simp

lemma fround32_of_int: "\<bar>k\<bar> < 2 ^ 24 \<Longrightarrow> fround32 (of_int k) = of_int k"
  using fround32_dyadic[of k 0] by simp

lemma fround32_zero [simp]: "fround32 0 = 0"
  by (simp add: fround32_def)

lemma store32_zero [simp]: "store32 (Fin 0) = Fin 0"
  by simp

lemma store32_NaN: "store32 NaN = NaN"
  by simp

lemma fl_numeral: "(numeral v :: nat) < 2 ^ 53 \<Longrightarrow> fl (numeral v) = numeral v"
  using fl_of_nat[of "numeral v"] by simp

section \<open>The Heat palette at its end points\<close>

lemma heat_top_diff: "fl (1 - fl (67/100)) = 5944751508129054 / 2 ^ 54"
  unfolding lit_067 by (subst fl_pos_eval[of _ 54]) (simp_all add: round_even_def)

lemma heat_top_factor:
  "fl (fl (1 - fl (67/100)) / fl (33/100)) = 9007199254740990 / 2 ^ 53"
  unfolding heat_top_diff lit_033
  by (subst fl_pos_eval[of _ 53]) (simp_all add: round_even_def)

lemma heat_top_channel:
  "\<lfloor>fl (fl (fl (1 - fl (67/100)) / fl (33/100)) * 255)\<rfloor> = 254"
  unfolding heat_top_factor
  by (subst fl_pos_eval[of _ 45]) (simp_all add: round_even_def)

lemma heatMap_zero: "heatMap 0 = \<lparr>r = 0, g = 0, b = 0\<rparr>"
  by (simp add: heatMap_def lit_033 fl_zero)

lemma heatMap_one: "heatMap 1 = \<lparr>r = 255, g = 255, b = 254\<rparr>"
proof -
  have "\<not> (1::real) < fl (33/100)" "\<not> (1::real) < fl (67/100)"
    by (simp_all add: lit_033 lit_067)
  then show ?thesis
    by (simp add: heatMap_def heat_top_channel)
qed

text \<open>
  Claim C8. The Heat palette maps \<open>t = 0\<close> to black \<open>(0, 0, 0)\<close>. At \<open>t = 1\<close> the third
  segment computes \<open>(1 - 0.67) / 0.33\<close>, which in binary64 is \<open>1 - 2^-52\<close> and not 1, so the
  blue channel is \<open>floor 254.99999999999994 = 254\<close>: the palette returns
  \<open>(255, 255, 254)\<close>, not the white \<open>(255, 255, 255)\<close> that the claim and the function's
  own documentation give for the top of the range.
\<close>

theorem heatMap_end_points:
  "heatMap 0 = \<lparr>r = 0, g = 0, b = 0\<rparr> \<and> heatMap 1 = \<lparr>r = 255, g = 255, b = 254\<rparr>"
  using heatMap_zero heatMap_one by simp

section \<open>Arrays and loops\<close>

lemma nsub_Fin [simp]: "nsub (Fin x) (Fin y) = Fin (x - y)"
  by (simp add: nsub_def)

lemma ngreater_Fin [simp]: "ngreater (Fin x) (Fin y) = (y < x)"
  by (simp add: ngreater_def)

lemma fold_ta_set_upt:
  "n \<le> length init \<Longrightarrow>
   fold (\<lambda>i w. ta_set w i (f i)) [0..<n] init = map (\<lambda>i. store32 (f i)) [0..<n] @ drop n init"
proof (induction n)
  case 0
  then show ?case by simp
next
  case (Suc n)
  then have n: "n < length init" by simp
  have "fold (\<lambda>i w. ta_set w i (f i)) [0..<Suc n] init
      = ta_set (map (\<lambda>i. store32 (f i)) [0..<n] @ drop n init) n (f n)"
    using Suc by simp
  also have "\<dots> = map (\<lambda>i. store32 (f i)) [0..<n] @ (drop n init)[0 := store32 (f n)]"
    using n by (simp add: ta_set_def list_update_append)
  also have "drop n init = init ! n # drop (Suc n) init"
    using n by (simp add: Cons_nth_drop_Suc)
  finally show ?case by simp
qed

lemma applyWindow_map:
  "applyWindow samples windowType =
     map (\<lambda>i. store32 (mul64 (samples ! i) (windowValue windowType i (length samples))))
         [0..<length samples]"
proof -
  have "applyWindow samples windowType =
     map (\<lambda>i. store32 (mul64 (ta_get samples i) (windowValue windowType i (length samples))))
         [0..<length samples]"
    unfolding applyWindow_def by (subst fold_ta_set_upt) simp_all
  also have "\<dots> = map (\<lambda>i. store32 (mul64 (samples ! i) (windowValue windowType i (length samples))))
         [0..<length samples]"
    by (rule map_cong) (simp_all add: ta_get_def)
  finally show ?thesis .
qed

lemma length_frameSamples [simp]: "length (frameSamples samples startSample fftSize) = fftSize"
proof -
  have "nat (min (startSample + int fftSize) (int (length samples)) - startSample) \<le> fftSize"
    by auto
  then show ?thesis
    unfolding frameSamples_def Let_def by (subst fold_ta_set_upt) simp_all
qed

lemma collectFrames_total:
  "(\<And>i. i \<in> set js \<Longrightarrow> body i = Inr (h i)) \<Longrightarrow> collectFrames body js = Inr (map h js)"
  by (induction js) simp_all

lemma collectFrames_Inl:
  "collectFrames body js = Inl e \<Longrightarrow> \<exists>i \<in> set js. body i = Inl e"
  by (induction js) (auto split: sum.splits)

lemma collectFrames_Inr:
  "collectFrames body js = Inr xs \<Longrightarrow>
     length xs = length js \<and> (\<forall>k < length js. body (js ! k) = Inr (xs ! k))"
proof (induction js arbitrary: xs)
  case Nil
  then show ?case by simp
next
  case (Cons j js)
  then obtain x ys where x: "body j = Inr x" and ys: "collectFrames body js = Inr ys"
    and xs: "xs = x # ys"
    by (auto split: sum.splits)
  from Cons.IH[OF ys] show ?case
    using x xs by (auto simp: nth_Cons split: nat.splits)
qed

section \<open>Silent input\<close>

lemma nmul_quiet_right: "quiet x \<Longrightarrow> quiet (nmul y x)"
  by (cases y) (auto simp: inf_of_sign_def quiet_def)

lemma nmul_quiet_left: "quiet x \<Longrightarrow> quiet (nmul x y)"
  by (cases y) (auto simp: inf_of_sign_def quiet_def)

lemma nadd_quiet: "quiet x \<Longrightarrow> quiet y \<Longrightarrow> quiet (nadd x y)"
  by (auto simp: quiet_def)

lemma nsub_quiet: "quiet x \<Longrightarrow> quiet y \<Longrightarrow> quiet (nsub x y)"
  by (auto simp: nsub_def quiet_def)

lemma nfl_quiet: "quiet x \<Longrightarrow> quiet (nfl x)"
  by (auto simp: quiet_def)

lemma store32_quiet: "quiet x \<Longrightarrow> quiet (store32 x)"
  by (auto simp: quiet_def)

lemma mul64_quiet_right: "quiet x \<Longrightarrow> quiet (mul64 y x)"
  unfolding mul64_def by (intro nfl_quiet nmul_quiet_right)

lemma mul64_quiet_left: "quiet x \<Longrightarrow> quiet (mul64 x y)"
  unfolding mul64_def by (intro nfl_quiet nmul_quiet_left)

lemma add64_quiet: "quiet x \<Longrightarrow> quiet y \<Longrightarrow> quiet (add64 x y)"
  unfolding add64_def by (intro nfl_quiet nadd_quiet)

lemma sub64_quiet: "quiet x \<Longrightarrow> quiet y \<Longrightarrow> quiet (sub64 x y)"
  unfolding sub64_def by (intro nfl_quiet nsub_quiet)

lemma ta_get_quiet: "list_all quiet xs \<Longrightarrow> quiet (ta_get xs i)"
  by (simp add: ta_get_def list_all_length quiet_def)

lemma ta_get_int_quiet: "list_all quiet xs \<Longrightarrow> quiet (ta_get_int xs j)"
  using ta_get_quiet[of xs "nat j"] by (simp add: ta_get_int_def quiet_def)

lemma ta_set_quiet:
  "list_all quiet xs \<Longrightarrow> quiet v \<Longrightarrow> list_all quiet (ta_set xs i v)"
  by (simp add: ta_set_def list_all_length nth_list_update store32_quiet)

lemma fold_quiet:
  assumes "\<And>i c. list_all quiet c \<Longrightarrow> list_all quiet (step i c)"
    and "list_all quiet c"
  shows "list_all quiet (fold step js c)"
  using assms(2) by (induction js arbitrary: c) (simp_all add: assms(1))

lemma replicate_quiet: "list_all quiet (replicate n (Fin 0))"
  by (simp add: list_all_length quiet_def)

lemma frameSamples_quiet:
  assumes "list_all quiet samples"
  shows "list_all quiet (frameSamples samples startSample fftSize)"
  unfolding frameSamples_def Let_def
  by (intro fold_quiet ta_set_quiet ta_get_int_quiet assms replicate_quiet)

lemma applyWindow_quiet:
  assumes "list_all quiet samples"
  shows "list_all quiet (applyWindow samples windowType)"
  unfolding applyWindow_def
  by (intro fold_quiet ta_set_quiet mul64_quiet_left ta_get_quiet assms replicate_quiet)

lemma bitReverse_quiet:
  assumes "list_all quiet samples"
  shows "list_all quiet (bitReverse samples)"
proof -
  have z: "quiet (Fin 0)" by (simp add: quiet_def)
  show ?thesis
    unfolding bitReverse_def Let_def
    by (intro fold_quiet ta_set_quiet ta_get_int_quiet assms replicate_quiet z)
qed

lemma butterfly_quiet:
  assumes "list_all quiet c"
  shows "list_all quiet (butterfly sz start i c)"
  unfolding butterfly_def Let_def
  by (intro ta_set_quiet add64_quiet sub64_quiet mul64_quiet_right ta_get_quiet assms)


lemma fftBlocks_quiet:
  "list_all quiet c \<Longrightarrow> list_all quiet (fftBlocks sz n start c)"
proof (induction sz n start c rule: fftBlocks.induct)
  case (1 sz n start c)
  show ?case
  proof (cases "start < n \<and> 0 < sz")
    case True
    have "list_all quiet (fold (butterfly sz start) [0..<sz div 2] c)"
      by (intro fold_quiet butterfly_quiet "1.prems")
    from "1.IH"[OF True this] True show ?thesis
      by (subst fftBlocks.simps) simp
  next
    case False
    then show ?thesis using "1.prems" by (subst fftBlocks.simps) auto
  qed
qed

lemma fftPasses_quiet:
  "list_all quiet c \<Longrightarrow> list_all quiet (fftPasses n sz c)"
proof (induction n sz c rule: fftPasses.induct)
  case (1 n sz c)
  show ?case
  proof (cases "sz \<le> n \<and> 0 < sz")
    case True
    from "1.IH"[OF True fftBlocks_quiet[OF "1.prems"]] True show ?thesis
      by (subst fftPasses.simps) simp
  next
    case False
    then show ?thesis using "1.prems" by (subst fftPasses.simps) auto
  qed
qed

lemma performFFT_quiet:
  "list_all quiet samples \<Longrightarrow> list_all quiet (complexValues (performFFT samples))"
  by (simp add: performFFT_def Let_def fftPasses_quiet bitReverse_quiet)

lemma powerToDb_quiet: "quiet x \<Longrightarrow> powerToDb fftSize x = Fin (- 120)"
  by (cases "fftSize = 0") (auto simp: powerToDb_def Let_def inf_of_sign_def ngreater_def MIN_POWER_VALUE_def
      MIN_DB_DISPLAY_def quiet_def)

lemma quiet_frame_db:
  assumes "list_all quiet samples"
    and "calculatePowerSpectrum (performFFT (applyWindow samples windowType)) fftSize = Inr ps"
  shows "dbValues (convertToDBSpectrum ps fftSize) = replicate (fftSize div 2) (Fin (- 120))"
proof -
  let ?c = "complexValues (performFFT (applyWindow samples windowType))"
  have q: "list_all quiet ?c"
    by (intro performFFT_quiet applyWindow_quiet assms(1))
  have pv: "powerValues ps = map (\<lambda>i. nadd (nmul (ta_get ?c (i * 2)) (ta_get ?c (i * 2)))
       (nmul (ta_get ?c (i * 2 + 1)) (ta_get ?c (i * 2 + 1)))) [0..<fftSize div 2]"
    using assms(2) by (auto simp: calculatePowerSpectrum_def Let_def split: if_splits)
  have "\<And>i. powerToDb fftSize (nadd (nmul (ta_get ?c (i * 2)) (ta_get ?c (i * 2)))
       (nmul (ta_get ?c (i * 2 + 1)) (ta_get ?c (i * 2 + 1)))) = Fin (- 120)"
    by (intro powerToDb_quiet nadd_quiet nmul_quiet_left ta_get_quiet q)
  then show ?thesis
    by (simp add: convertToDBSpectrum_def Let_def pv map_replicate_const comp_def)
qed

section \<open>The spectrogram of a time range\<close>

subsection \<open>The frame loop\<close>

lemma length_powerValues:
  "calculatePowerSpectrum fftResult fftSize = Inr ps \<Longrightarrow> length (powerValues ps) = fftSize div 2"
  by (auto simp: calculatePowerSpectrum_def split: if_splits)

lemma length_dbValues [simp]:
  "length (dbValues (convertToDBSpectrum ps fftSize)) = length (powerValues ps)"
  by (simp add: convertToDBSpectrum_def Let_def)

lemma calculatePowerSpectrum_even:
  "even fftSize \<Longrightarrow> \<exists>ps. calculatePowerSpectrum fftResult fftSize = Inr ps"
  by (simp add: calculatePowerSpectrum_def)

lemma calculatePowerSpectrum_odd:
  "odd fftSize \<Longrightarrow> calculatePowerSpectrum fftResult fftSize = Inl RangeError"
  by (simp add: calculatePowerSpectrum_def)

text \<open>What a round of the frame loop returns, in terms of the frame it transforms.\<close>

lemma spectrogramFrame_Inr:
  assumes "spectrogramFrame audioData startTime startFrame fftSize hopSize k = Inr fr"
  shows "\<exists>ps. calculatePowerSpectrum
           (performFFT (applyWindow
              (frameSamples (ad_samples audioData) (startFrame + int k * int hopSize) fftSize)
              HANNING)) fftSize = Inr ps
         \<and> frequencyBins fr = dbValues (convertToDBSpectrum ps fftSize)"
  using assms by (auto simp: spectrogramFrame_def Let_def split: sum.splits)

lemma spectrogramFrame_even:
  assumes "even fftSize"
  shows "\<exists>fr. spectrogramFrame audioData startTime startFrame fftSize hopSize k = Inr fr"
proof -
  obtain ps where "calculatePowerSpectrum
           (performFFT (applyWindow
              (frameSamples (ad_samples audioData) (startFrame + int k * int hopSize) fftSize)
              HANNING)) fftSize = Inr ps"
    using calculatePowerSpectrum_even[OF assms] by blast
  then show ?thesis
    by (simp add: spectrogramFrame_def Let_def)
qed

lemma spectrogramFrame_bins:
  assumes "spectrogramFrame audioData startTime startFrame fftSize hopSize k = Inr fr"
  shows "length (frequencyBins fr) = fftSize div 2"
proof -
  from spectrogramFrame_Inr[OF assms] obtain ps where
    "calculatePowerSpectrum
           (performFFT (applyWindow
              (frameSamples (ad_samples audioData) (startFrame + int k * int hopSize) fftSize)
              HANNING)) fftSize = Inr ps"
    "frequencyBins fr = dbValues (convertToDBSpectrum ps fftSize)"
    by blast
  then show ?thesis
    by (simp add: length_powerValues)
qed

lemma collectFrames_all_Inr:
  assumes "\<And>i. \<exists>x. body i = Inr x"
  shows "\<exists>xs. collectFrames body js = Inr xs"
proof (induction js)
  case Nil
  then show ?case by simp
next
  case (Cons j js)
  then obtain xs where "collectFrames body js = Inr xs" by blast
  moreover obtain x where "body j = Inr x" using assms by blast
  ultimately show ?case by simp
qed


lemma calculateSpectrogram_cases:
  assumes "0 < hopSize"
  shows "calculateSpectrogram audioData startTime dur fftSize hopSize =
     (case collectFrames
             (spectrogramFrame audioData startTime \<lfloor>fl (startTime * ad_sampleRate audioData)\<rfloor>
                fftSize hopSize)
             [0..<frameCount audioData startTime dur fftSize hopSize] of
        Inl e \<Rightarrow> Throws e
      | Inr frames \<Rightarrow>
          Returns \<lparr>sd_frames = frames,
                   sd_sampleRate = ad_sampleRate audioData,
                   sd_fftSize = fftSize,
                   sd_hopSize = hopSize,
                   sd_duration = min dur (fl (ad_duration audioData - startTime)),
                   sd_numFrequencyBins = real fftSize / 2,
                   sd_frequencyResolution =
                     ndiv (Fin (ad_sampleRate audioData)) (Fin (real fftSize)),
                   sd_timeResolution =
                     ndiv (Fin (real hopSize)) (Fin (ad_sampleRate audioData))\<rparr>)"
  using assms
  by (simp add: calculateSpectrogram_def Let_def frameCount_def add64_def sub64_def div64_def)

lemma calculateSpectrogram_Returns:
  assumes "0 < hopSize"
    and "calculateSpectrogram audioData startTime dur fftSize hopSize = Returns sd"
  shows "sd_fftSize sd = fftSize" "sd_hopSize sd = hopSize"
    "length (sd_frames sd) = frameCount audioData startTime dur fftSize hopSize"
    "\<And>k. k < length (sd_frames sd) \<Longrightarrow>
       spectrogramFrame audioData startTime \<lfloor>fl (startTime * ad_sampleRate audioData)\<rfloor>
         fftSize hopSize k = Inr (sd_frames sd ! k)"
proof -
  let ?body = "spectrogramFrame audioData startTime \<lfloor>fl (startTime * ad_sampleRate audioData)\<rfloor>
                fftSize hopSize"
  let ?n = "frameCount audioData startTime dur fftSize hopSize"
  from assms obtain frames where fr: "collectFrames ?body [0..<?n] = Inr frames"
    and sd: "sd_frames sd = frames" "sd_fftSize sd = fftSize" "sd_hopSize sd = hopSize"
    by (auto simp: calculateSpectrogram_cases split: sum.splits)
  from collectFrames_Inr[OF fr] have len: "length frames = ?n"
    and each: "\<forall>k<?n. ?body ([0..<?n] ! k) = Inr (frames ! k)"
    by simp_all
  show "sd_fftSize sd = fftSize" "sd_hopSize sd = hopSize" by (fact sd)+
  show "length (sd_frames sd) = ?n" using len sd by simp
  show "?body k = Inr (sd_frames sd ! k)" if "k < length (sd_frames sd)" for k
    using that each len sd by simp
qed

lemma calculateSpectrogram_even:
  assumes "0 < hopSize" "even fftSize"
  shows "\<exists>sd. calculateSpectrogram audioData startTime dur fftSize hopSize = Returns sd"
proof -
  let ?body = "spectrogramFrame audioData startTime \<lfloor>fl (startTime * ad_sampleRate audioData)\<rfloor>
                fftSize hopSize"
  have "\<exists>frames. collectFrames ?body
          [0..<frameCount audioData startTime dur fftSize hopSize] = Inr frames"
    by (rule collectFrames_all_Inr) (rule spectrogramFrame_even[OF assms(2)])
  then obtain frames where "collectFrames ?body
          [0..<frameCount audioData startTime dur fftSize hopSize] = Inr frames"
    by blast
  then show ?thesis
    by (simp add: calculateSpectrogram_cases[OF assms(1)])
qed

subsection \<open>Decibels\<close>








section \<open>The global decibel range\<close>

subsection \<open>Scanning\<close>

lemma fold_scanDb_none:
  "\<forall>d \<in> set ds. \<not> ngreater d (Fin MIN_DB_DISPLAY) \<Longrightarrow> fold scanDb ds acc = acc"
  by (induction ds arbitrary: acc) (auto simp: scanDb_def)

lemma scanFrames_none:
  assumes "\<forall>f \<in> set frames. \<forall>d \<in> set (frequencyBins f). \<not> ngreater d (Fin MIN_DB_DISPLAY)"
  shows "scanFrames frames = (PosInf, NegInf)"
proof -
  have "fold (\<lambda>frame acc. fold scanDb (frequencyBins frame) acc) frames acc = acc" for acc
    using assms by (induction frames arbitrary: acc) (simp_all add: fold_scanDb_none)
  then show ?thesis by (simp add: scanFrames_def)
qed

lemma globalRange_fallback:
  "globalRange (PosInf, NegInf) = \<lparr>minDb = Fin (- 120), maxDb = Fin 0, dynamicRange = Fin 120\<rparr>"
  by (simp add: globalRange_def MIN_DB_DISPLAY_def MAX_DB_THEORETICAL_def)

lemma default_sizes: "0 < DEFAULT_HOP_SIZE" "even DEFAULT_FFT_SIZE"
  by (simp_all add: DEFAULT_HOP_SIZE_def DEFAULT_FFT_SIZE_def)

lemma silent_frames_at_floor:
  assumes "list_all quiet (ad_samples audioData)"
    and "calculateSpectrogram audioData startTime dur fftSize hopSize = Returns sd"
    and "f \<in> set (sd_frames sd)"
  shows "frequencyBins f = replicate (fftSize div 2) (Fin (- 120))"
proof (cases "0 < hopSize")
  case True
  from assms(3) obtain k where k: "k < length (sd_frames sd)" and f: "f = sd_frames sd ! k"
    by (auto simp: in_set_conv_nth)
  from calculateSpectrogram_Returns(4)[OF True assms(2) k] f
  have "spectrogramFrame audioData startTime \<lfloor>fl (startTime * ad_sampleRate audioData)\<rfloor>
         fftSize hopSize k = Inr f"
    by simp
  from spectrogramFrame_Inr[OF this] obtain ps where
    ps: "calculatePowerSpectrum (performFFT (applyWindow
              (frameSamples (ad_samples audioData)
                 (\<lfloor>fl (startTime * ad_sampleRate audioData)\<rfloor> + int k * int hopSize) fftSize)
              HANNING)) fftSize = Inr ps"
    and bins: "frequencyBins f = dbValues (convertToDBSpectrum ps fftSize)"
    by blast
  from quiet_frame_db[OF frameSamples_quiet[OF assms(1)] ps] bins show ?thesis
    by simp
next
  case False
  then have "hopSize = 0" by simp
  with assms(2) have "sd_frames sd = []"
    by (auto simp: calculateSpectrogram_def Let_def inf_of_sign_def add64_def sub64_def div64_def
        split: if_splits option.splits sum.splits)
  with assms(3) show ?thesis by simp
qed


lemma calculateSpectrogram_hop0:
  assumes "calculateSpectrogram audioData startTime dur fftSize 0 = Returns sd"
  shows "sd_frames sd = []"
  using assms
  by (auto simp: calculateSpectrogram_def Let_def inf_of_sign_def add64_def sub64_def div64_def
        split: if_splits option.splits sum.splits)

lemma length_applyWindow [simp]: "length (applyWindow samples windowType) = length samples"
  by (simp add: applyWindow_map)

text \<open>
  Claim C9. \<open>calculateGlobalDbRange\<close> takes the audio data and nothing else. Whatever the
  audio, the spectrogram it scans is the one computed from time 0 over the whole duration
  with FFT size 2048 and hop size 512 (that computation always returns), so every scanned
  frame has 1024 bins; the sizes used for the renders play no part.
\<close>

theorem global_range_uses_default_sizes:
  "\<exists>sd. calculateSpectrogram audioData 0 (ad_duration audioData) 2048 512 = Returns sd
      \<and> sd_fftSize sd = 2048 \<and> sd_hopSize sd = 512
      \<and> (\<forall>f \<in> set (sd_frames sd). length (frequencyBins f) = 1024)
      \<and> calculateGlobalDbRange audioData = Returns (globalRange (scanFrames (sd_frames sd)))"
proof -
  have "\<exists>sd. calculateSpectrogram audioData 0 (ad_duration audioData) 2048 512 = Returns sd"
    by (rule calculateSpectrogram_even) simp_all
  then obtain sd where
    sd: "calculateSpectrogram audioData 0 (ad_duration audioData) 2048 512 = Returns sd"
    by blast
  have bins: "length (frequencyBins f) = 1024" if "f \<in> set (sd_frames sd)" for f
  proof -
    from that obtain k where k: "k < length (sd_frames sd)" and f: "f = sd_frames sd ! k"
      by (auto simp: in_set_conv_nth)
    from calculateSpectrogram_Returns(4)[OF _ sd k] f
    have "spectrogramFrame audioData 0 \<lfloor>fl (0 * ad_sampleRate audioData)\<rfloor> 2048 512 k = Inr f"
      by simp
    from spectrogramFrame_bins[OF this] show ?thesis by simp
  qed
  have "calculateGlobalDbRange audioData = Returns (globalRange (scanFrames (sd_frames sd)))"
    using sd by (simp add: calculateGlobalDbRange_def DEFAULT_FFT_SIZE_def DEFAULT_HOP_SIZE_def)
  with sd bins calculateSpectrogram_Returns(1,2)[OF _ sd] show ?thesis
    by auto
qed

subsection \<open>The scan in general\<close>

lemma above_floor_cases:
  "ngreater d (Fin MIN_DB_DISPLAY) \<Longrightarrow> d = PosInf \<or> (\<exists>x. d = Fin x)"
  by (cases d) (simp_all add: ngreater_def)

lemma nle_refl: "d = PosInf \<or> (\<exists>x. d = Fin x) \<Longrightarrow> nle d d"
  by (auto simp: nle_def)

lemma nle_trans:
  "nle a c \<Longrightarrow> nle c e \<Longrightarrow> nle a e"
  by (cases a; cases c; cases e) (auto simp: nle_def)

lemma nmin_cases:
  assumes "a = PosInf \<or> (\<exists>x. a = Fin x)" "d = PosInf \<or> (\<exists>x. d = Fin x)"
  shows "(nmin a d = a \<or> nmin a d = d) \<and> nle (nmin a d) a \<and> nle (nmin a d) d"
  using assms by (auto simp: nmin_def nle_def)

lemma nmax_cases:
  assumes "a = NegInf \<or> a = PosInf \<or> (\<exists>x. a = Fin x)" "d = PosInf \<or> (\<exists>x. d = Fin x)"
  shows "(nmax a d = a \<or> nmax a d = d) \<and> nle a (nmax a d) \<and> nle d (nmax a d)"
  using assms by (auto simp: nmax_def nle_def)

lemma nmin_PosInf: "d = PosInf \<or> (\<exists>x. d = Fin x) \<Longrightarrow> nmin PosInf d = d"
  by (auto simp: nmin_def)

lemma nmax_NegInf: "d = PosInf \<or> (\<exists>x. d = Fin x) \<Longrightarrow> nmax NegInf d = d"
  by (auto simp: nmax_def)

lemma in_set_not_Nil: "x \<in> set xs \<Longrightarrow> xs \<noteq> []"
  by auto

lemma fold_scanDb_inv:
  assumes "fold scanDb ds (PosInf, NegInf) = (mn, mx)"
  shows "(filter (\<lambda>d. ngreater d (Fin MIN_DB_DISPLAY)) ds = [] \<longrightarrow> mn = PosInf \<and> mx = NegInf)
       \<and> (filter (\<lambda>d. ngreater d (Fin MIN_DB_DISPLAY)) ds \<noteq> [] \<longrightarrow>
             mn \<in> set (filter (\<lambda>d. ngreater d (Fin MIN_DB_DISPLAY)) ds)
           \<and> mx \<in> set (filter (\<lambda>d. ngreater d (Fin MIN_DB_DISPLAY)) ds))
       \<and> (\<forall>d \<in> set (filter (\<lambda>d. ngreater d (Fin MIN_DB_DISPLAY)) ds). nle mn d \<and> nle d mx)"
  using assms
proof (induction ds arbitrary: mn mx rule: rev_induct)
  case Nil
  then show ?case by simp
next
  case (snoc d ds)
  let ?above = "\<lambda>d. ngreater d (Fin MIN_DB_DISPLAY)"
  obtain mn0 mx0 where acc: "fold scanDb ds (PosInf, NegInf) = (mn0, mx0)"
    by (cases "fold scanDb ds (PosInf, NegInf)") auto
  note IH = snoc.IH[OF acc]
  from snoc.prems acc have step: "scanDb d (mn0, mx0) = (mn, mx)"
    by simp
  show ?case
  proof (cases "?above d")
    case False
    with step have "mn = mn0" "mx = mx0"
      by (simp_all add: scanDb_def)
    with IH False show ?thesis by simp
  next
    case True
    then have d: "d = PosInf \<or> (\<exists>x. d = Fin x)"
      by (rule above_floor_cases)
    from step True have mn: "mn = nmin mn0 d" and mx: "mx = nmax mx0 d"
      by (simp_all add: scanDb_def)
    show ?thesis
    proof (cases "filter ?above ds = []")
      case True
      with IH have "mn0 = PosInf" "mx0 = NegInf" by simp_all
      with mn mx d have "mn = d" "mx = d"
        by (simp_all add: nmin_PosInf nmax_NegInf)
      with True \<open>?above d\<close> nle_refl[OF d] show ?thesis by simp
    next
      case False
      with IH have in0: "mn0 \<in> set (filter ?above ds)" "mx0 \<in> set (filter ?above ds)"
        and le0: "\<forall>e \<in> set (filter ?above ds). nle mn0 e \<and> nle e mx0"
        by simp_all
      from in0 have "?above mn0" "?above mx0"
        by simp_all
      then have m0: "mn0 = PosInf \<or> (\<exists>x. mn0 = Fin x)" "mx0 = PosInf \<or> (\<exists>x. mx0 = Fin x)"
        by (simp_all add: above_floor_cases)
      from nmin_cases[OF m0(1) d] mn
      have a: "mn = mn0 \<or> mn = d" "nle mn mn0" "nle mn d" by simp_all
      from m0(2) have "mx0 = NegInf \<or> mx0 = PosInf \<or> (\<exists>x. mx0 = Fin x)" by blast
      from nmax_cases[OF this d] mx
      have b: "mx = mx0 \<or> mx = d" "nle mx0 mx" "nle d mx" by simp_all
      have "nle mn e \<and> nle e mx" if "e \<in> set (filter ?above ds)" for e
        using le0 that a(2) b(2) by (blast intro: nle_trans)
      with a b in0 \<open>?above d\<close> show ?thesis
        by auto
    qed
  qed
qed

lemma scanFrames_concat:
  "scanFrames frames = fold scanDb (concat (map frequencyBins frames)) (PosInf, NegInf)"
proof -
  have "fold (\<lambda>frame acc. fold scanDb (frequencyBins frame) acc) frames acc
      = fold scanDb (concat (map frequencyBins frames)) acc" for acc
    by (induction frames arbitrary: acc) simp_all
  then show ?thesis by (simp add: scanFrames_def)
qed


lemma frameCount_example:
  "frameCount \<lparr>ad_samples = xs, ad_sampleRate = 2048, ad_duration = 1\<rparr> 0 1 2048 512 = 1"
  by (simp add: frameCount_def fl_numeral)

text \<open>
  One second of 2048 samples per second: the scanned spectrogram has one frame.
\<close>

theorem global_range_uses_default_sizes_witness:
  "\<exists>sd. calculateSpectrogram
           \<lparr>ad_samples = replicate 2048 (Fin 0), ad_sampleRate = 2048, ad_duration = 1\<rparr> 0 1 2048 512
         = Returns sd
      \<and> length (sd_frames sd) = 1
      \<and> sd_fftSize sd = 2048 \<and> sd_hopSize sd = 512
      \<and> (\<forall>f \<in> set (sd_frames sd). length (frequencyBins f) = 1024)
      \<and> calculateGlobalDbRange
           \<lparr>ad_samples = replicate 2048 (Fin 0), ad_sampleRate = 2048, ad_duration = 1\<rparr>
         = Returns (globalRange (scanFrames (sd_frames sd)))"
proof -
  let ?a = "\<lparr>ad_samples = replicate 2048 (Fin 0), ad_sampleRate = 2048, ad_duration = 1\<rparr>"
  from global_range_uses_default_sizes[of ?a] obtain sd where
    sd: "calculateSpectrogram ?a 0 1 2048 512 = Returns sd"
    and rest: "sd_fftSize sd = 2048" "sd_hopSize sd = 512"
      "\<forall>f \<in> set (sd_frames sd). length (frequencyBins f) = 1024"
      "calculateGlobalDbRange ?a = Returns (globalRange (scanFrames (sd_frames sd)))"
    by auto
  have "length (sd_frames sd) = 1"
    using calculateSpectrogram_Returns(3)[OF _ sd] by (simp add: frameCount_example)
  with sd rest show ?thesis by blast
qed

text \<open>
  Claim C4. \<open>calculateGlobalDbRange\<close> always returns. Of the decibel values of the
  full-duration spectrogram it regards those above the display floor \<open>-120\<close>: \<open>minDb\<close> and
  \<open>maxDb\<close> bound them, \<open>maxDb\<close> is one of them and \<open>minDb\<close> is one of them (when one of them is
  finite). When no value exceeds the floor the result is exactly
  \<open>{minDb = -120, maxDb = 0, dynamicRange = 120}\<close>, three finite numbers; all-zero audio
  is such an input.
\<close>

theorem global_range_scan:
  "(\<exists>range. calculateGlobalDbRange audioData = Returns range)
   \<and> (\<forall>sd range.
         calculateSpectrogram audioData 0 (ad_duration audioData)
           DEFAULT_FFT_SIZE DEFAULT_HOP_SIZE = Returns sd
         \<longrightarrow> calculateGlobalDbRange audioData = Returns range
         \<longrightarrow> (let above = filter (\<lambda>d. ngreater d (Fin MIN_DB_DISPLAY))
                              (concat (map frequencyBins (sd_frames sd)))
              in (\<forall>d \<in> set above. nle (minDb range) d \<and> nle d (maxDb range))
                 \<and> (above \<noteq> [] \<longrightarrow> maxDb range \<in> set above)
                 \<and> ((\<exists>x. Fin x \<in> set above) \<longrightarrow> minDb range \<in> set above)
                 \<and> (above = [] \<longrightarrow>
                      range = \<lparr>minDb = Fin (- 120), maxDb = Fin 0, dynamicRange = Fin 120\<rparr>)))
   \<and> (list_all (\<lambda>s. s = Fin 0) (ad_samples audioData)
         \<longrightarrow> calculateGlobalDbRange audioData
               = Returns \<lparr>minDb = Fin (- 120), maxDb = Fin 0, dynamicRange = Fin 120\<rparr>)"
proof (intro conjI allI impI)
  obtain sd0 where sd0: "calculateSpectrogram audioData 0 (ad_duration audioData)
      DEFAULT_FFT_SIZE DEFAULT_HOP_SIZE = Returns sd0"
    using calculateSpectrogram_even[OF default_sizes] by blast
  then show "\<exists>range. calculateGlobalDbRange audioData = Returns range"
    by (simp add: calculateGlobalDbRange_def)
  {
    fix sd range
    assume sd: "calculateSpectrogram audioData 0 (ad_duration audioData)
               DEFAULT_FFT_SIZE DEFAULT_HOP_SIZE = Returns sd"
      and range: "calculateGlobalDbRange audioData = Returns range"
    let ?above = "filter (\<lambda>d. ngreater d (Fin MIN_DB_DISPLAY))
                              (concat (map frequencyBins (sd_frames sd)))"
    obtain mn mx where scan: "scanFrames (sd_frames sd) = (mn, mx)"
      by (cases "scanFrames (sd_frames sd)") auto
    from scan have "fold scanDb (concat (map frequencyBins (sd_frames sd))) (PosInf, NegInf) = (mn, mx)"
      by (simp add: scanFrames_concat)
    note inv = fold_scanDb_inv[OF this]
    from sd range scan have r: "range = globalRange (mn, mx)"
      by (simp add: calculateGlobalDbRange_def)
    have minDb: "minDb range = (if mn = PosInf then Fin (- 120) else mn)"
      and maxDb: "maxDb range = (if mx = NegInf then Fin 0 else mx)"
      by (simp_all add: r globalRange_def Let_def MIN_DB_DISPLAY_def MAX_DB_THEORETICAL_def)
    have empty: "range = \<lparr>minDb = Fin (- 120), maxDb = Fin 0, dynamicRange = Fin 120\<rparr>"
      if "?above = []"
      using inv that by (simp add: r globalRange_fallback)
    have mx_in: "mx \<in> set ?above" "mx \<noteq> NegInf" if "?above \<noteq> []"
    proof -
      show "mx \<in> set ?above" using inv that by simp
      then have "ngreater mx (Fin MIN_DB_DISPLAY)" by simp
      then show "mx \<noteq> NegInf" by (auto simp: ngreater_def)
    qed
    have bounds: "nle (minDb range) d \<and> nle d (maxDb range)" if d: "d \<in> set ?above" for d
    proof -
      have ne: "?above \<noteq> []" by (rule in_set_not_Nil[OF d])
      from inv d have le: "nle mn d" "nle d mx" by simp_all
      from d have "ngreater d (Fin MIN_DB_DISPLAY)" by simp
      then have "d = PosInf \<or> (\<exists>x. d = Fin x \<and> - 120 < x)"
        by (cases d) (simp_all add: ngreater_def MIN_DB_DISPLAY_def)
      then have "nle (Fin (- 120)) d"
        by (auto simp: nle_def)
      with le mx_in(2)[OF ne] show ?thesis
        by (simp add: minDb maxDb)
    qed
    have fin: "minDb range \<in> set ?above" if "\<exists>x. Fin x \<in> set ?above"
    proof -
      from that obtain x where x: "Fin x \<in> set ?above" by blast
      then have ne: "?above \<noteq> []" by (rule in_set_not_Nil)
      from inv x have "nle mn (Fin x)" by simp
      then have "mn \<noteq> PosInf" by (auto simp: nle_def)
      with inv ne show ?thesis by (simp add: minDb)
    qed
    show "let above = ?above
          in (\<forall>d \<in> set above. nle (minDb range) d \<and> nle d (maxDb range))
                 \<and> (above \<noteq> [] \<longrightarrow> maxDb range \<in> set above)
                 \<and> ((\<exists>x. Fin x \<in> set above) \<longrightarrow> minDb range \<in> set above)
                 \<and> (above = [] \<longrightarrow>
                      range = \<lparr>minDb = Fin (- 120), maxDb = Fin 0, dynamicRange = Fin 120\<rparr>)"
      unfolding Let_def using bounds mx_in fin empty by (simp add: maxDb)
  }
  assume "list_all (\<lambda>s. s = Fin 0) (ad_samples audioData)"
  then have q: "list_all quiet (ad_samples audioData)"
    by (simp add: list_all_iff quiet_def)
  have "\<forall>f \<in> set (sd_frames sd0). \<forall>d \<in> set (frequencyBins f). \<not> ngreater d (Fin MIN_DB_DISPLAY)"
    using silent_frames_at_floor[OF q sd0] by (auto simp: MIN_DB_DISPLAY_def)
  from scanFrames_none[OF this] sd0
  show "calculateGlobalDbRange audioData
        = Returns \<lparr>minDb = Fin (- 120), maxDb = Fin 0, dynamicRange = Fin 120\<rparr>"
    by (simp add: calculateGlobalDbRange_def globalRange_fallback)
qed

text \<open>
  One second of silence at 2048 samples per second: one frame, nothing above the floor.
\<close>

theorem global_range_scan_witness:
  "list_all (\<lambda>s. s = Fin 0)
     (ad_samples \<lparr>ad_samples = replicate 2048 (Fin 0), ad_sampleRate = 2048, ad_duration = 1\<rparr>)
   \<and> calculateGlobalDbRange
        \<lparr>ad_samples = replicate 2048 (Fin 0), ad_sampleRate = 2048, ad_duration = 1\<rparr>
      = Returns \<lparr>minDb = Fin (- 120), maxDb = Fin 0, dynamicRange = Fin 120\<rparr>
   \<and> (\<exists>sd. calculateSpectrogram
              \<lparr>ad_samples = replicate 2048 (Fin 0), ad_sampleRate = 2048, ad_duration = 1\<rparr>
              0 1 DEFAULT_FFT_SIZE DEFAULT_HOP_SIZE = Returns sd
          \<and> length (sd_frames sd) = 1
          \<and> filter (\<lambda>d. ngreater d (Fin MIN_DB_DISPLAY))
               (concat (map frequencyBins (sd_frames sd))) = [])"
proof -
  let ?a = "\<lparr>ad_samples = replicate 2048 (Fin 0), ad_sampleRate = 2048, ad_duration = 1\<rparr>"
  have zero: "list_all (\<lambda>s. s = Fin 0) (ad_samples ?a)"
    by (simp add: list_all_iff)
  with global_range_scan[of ?a]
  have range: "calculateGlobalDbRange ?a
      = Returns \<lparr>minDb = Fin (- 120), maxDb = Fin 0, dynamicRange = Fin 120\<rparr>"
    by blast
  obtain sd where sd: "calculateSpectrogram ?a 0 1 DEFAULT_FFT_SIZE DEFAULT_HOP_SIZE = Returns sd"
    using calculateSpectrogram_even[OF default_sizes] by blast
  have len: "length (sd_frames sd) = 1"
    using calculateSpectrogram_Returns(3)[OF default_sizes(1) sd]
    by (simp add: frameCount_example DEFAULT_FFT_SIZE_def DEFAULT_HOP_SIZE_def)
  have q: "list_all quiet (ad_samples ?a)"
    by (simp add: list_all_iff quiet_def)
  have "\<forall>f \<in> set (sd_frames sd). \<forall>d \<in> set (frequencyBins f). \<not> ngreater d (Fin MIN_DB_DISPLAY)"
    using silent_frames_at_floor[OF q sd] by (auto simp: MIN_DB_DISPLAY_def)
  then have "filter (\<lambda>d. ngreater d (Fin MIN_DB_DISPLAY))
               (concat (map frequencyBins (sd_frames sd))) = []"
    by (auto simp: filter_empty_conv)
  with zero range sd len show ?thesis
    by auto
qed

section \<open>Resampling to the same width\<close>

text \<open>
  Claim C6. When the number of frames equals the target width, \<open>resampleSpectrogram\<close>
  returns the matrix it was given, unchanged.
\<close>

theorem resample_identity:
  "length spectrogramData = targetWidth \<Longrightarrow>
     resampleSpectrogram spectrogramData targetWidth = Inr spectrogramData"
  by (auto simp: resampleSpectrogram_def Let_def)

text \<open>
  Two frames of two bins, resampled to width 2.
\<close>

theorem resample_identity_witness:
  "length [[Fin (- 30), Fin (- 120)], [Fin (- 45), Fin 0]] = (2::nat)
   \<and> resampleSpectrogram [[Fin (- 30), Fin (- 120)], [Fin (- 45), Fin 0]] 2
       = Inr [[Fin (- 30), Fin (- 120)], [Fin (- 45), Fin 0]]"
  using resample_identity[of "[[Fin (- 30), Fin (- 120)], [Fin (- 45), Fin 0]]" 2] by simp

section \<open>The rasterizer's decibel value\<close>

lemma getFrequencyIndex_top:
  assumes "n < 2 ^ 53"
  shows "getFrequencyIndex 0 2 n LINEAR sampleRate None None = Fin (of_int (int n - 1))"
proof -
  have "fl (real n - 1) = real n - 1"
    using fl_of_int[of "int n - 1"] assms by simp
  moreover have "\<lfloor>real n - 1\<rfloor> = int n - 1"
    by linarith
  ultimately show ?thesis
    by (simp add: getFrequencyIndex_def Let_def nmin_def nmax_def div64_def mul64_def)
qed

lemma getFrequencyIndex_bottom:
  "getFrequencyIndex (Suc 0) 2 n LINEAR sampleRate None None = Fin 0"
  by (simp add: getFrequencyIndex_def Let_def nmin_def nmax_def div64_def mul64_def)

lemma pixelDb_example:
  "pixelDb [Fin (- 50), Fin 0] (Fin 1) (- 120) = Fin (- 120)"
  "pixelDb [Fin (- 50), Fin 0] (Fin 0) (- 120) = Fin (- 50)"
  by (simp_all add: pixelDb_def row_def)

text \<open>
  Claim C7. A column with the bins \<open>-50\<close> and \<open>0\<close> dB, drawn two pixels high on the linear
  scale with the range \<open>-120 .. 0\<close>. At the top pixel the mapper resolves bin 1, which is
  inside the column and stores \<open>0\<close>; since \<open>0 || minDb\<close> is \<open>minDb\<close>, the value used is
  \<open>-120\<close> and the pixel is normalized to 0, the quietest value, where the stored \<open>0\<close> dB
  is the loudest of the range. At the bottom pixel the stored \<open>-50\<close> is used as it is.
\<close>

theorem pixel_zero_db_replaced:
  "getFrequencyIndex 0 2 2 LINEAR 44100 None None = Fin 1
   \<and> rowAt [Fin (- 50), Fin 0] (Fin 1) = Some (Fin 0)
   \<and> pixelDb [Fin (- 50), Fin 0] (Fin 1) (- 120) = Fin (- 120)
   \<and> pixelClamped [[Fin (- 50), Fin 0]] 1 2 LINEAR 44100 None None (- 120) 0 0 0 = Inr (Fin 0)
   \<and> pixelClamped [[Fin (- 50), Fin 0]] 1 2 LINEAR 44100 None None (- 120) 0 0 1 = Inr (Fin (7 / 12))"
proof (intro conjI)
  show "getFrequencyIndex 0 2 2 LINEAR 44100 None None = Fin 1"
    by (simp add: getFrequencyIndex_top)
  show "rowAt [Fin (- 50), Fin 0] (Fin 1) = Some (Fin 0)"
    by (simp add: row_def)
  show "pixelDb [Fin (- 50), Fin 0] (Fin 1) (- 120) = Fin (- 120)"
    by (rule pixelDb_example)
  show "pixelClamped [[Fin (- 50), Fin 0]] 1 2 LINEAR 44100 None None (- 120) 0 0 0 = Inr (Fin 0)"
    by (simp add: pixelClamped_def row_def Let_def getFrequencyIndex_top pixelDb_example
        nmin_def nmax_def)
  show "pixelClamped [[Fin (- 50), Fin 0]] 1 2 LINEAR 44100 None None (- 120) 0 0 1 = Inr (Fin (7 / 12))"
    by (simp add: pixelClamped_def row_def Let_def getFrequencyIndex_bottom pixelDb_example
        nmin_def nmax_def)
qed

text \<open>The top pixel alone.\<close>

theorem pixel_zero_db_replaced_witness:
  "pixelClamped [[Fin (- 50), Fin 0]] 1 2 LINEAR 44100 None None (- 120) 0 0 0 = Inr (Fin 0)"
  using pixel_zero_db_replaced by blast

section \<open>A frame length that is not a power of two\<close>

lemma list_update_Cons_numeral:
  "(x # xs)[numeral v := y] = x # xs[numeral v - 1 := y]"
  by (simp add: numeral_eq_Suc)

lemma replicate_numeral: "replicate (numeral v) x = x # replicate (numeral v - 1) x"
  by (simp add: numeral_eq_Suc)

lemma reverseBits_loop_numeral:
  "reverseBits_loop (numeral v) x res =
     reverseBits_loop (numeral v - 1) (drop_bit 1 (signed_take_bit 31 x))
       (signed_take_bit 31 (push_bit 1 (signed_take_bit 31 res)) OR (signed_take_bit 31 x AND 1))"
  by (simp add: numeral_eq_Suc)

lemmas numeral_eval = list_update_Cons_numeral replicate_numeral reverseBits_loop_numeral

lemma ceiling_log2_six: "\<lceil>log 2 (6::real)\<rceil> = 3"
proof (rule ceiling_unique)
  have "log 2 4 < log 2 (6::real)"
    by (subst log_less_cancel_iff) simp_all
  moreover have "log 2 4 = (2::real)"
    using log_pow_cancel[of 2 2] by simp
  ultimately show "real_of_int 3 - 1 < log 2 (6::real)" by simp
  have "log 2 (6::real) \<le> log 2 8"
    by (subst log_le_cancel_iff) simp_all
  moreover have "log 2 8 = (3::real)"
    using log_pow_cancel[of 2 3] by simp
  ultimately show "log 2 (6::real) \<le> real_of_int 3" by simp
qed

lemma reverseBits_six:
  "reverseBits 0 (log 2 6) = 0"
  "reverseBits (Suc 0) (log 2 6) = 4"
  "reverseBits 2 (log 2 6) = 2"
  "reverseBits 3 (log 2 6) = 6"
  "reverseBits 4 (log 2 6) = 1"
  "reverseBits 5 (log 2 6) = 5"
  by (simp_all add: reverseBits_def ceiling_log2_six numeral_eval)

lemma upt_six: "[0..<6] = [0, 1, 2, 3, 4, 5]"
  by (simp add: upt_rec)

lemma bitReverse_six:
  "bitReverse [a0, a1, a2, a3, a4, a5]
     = [store32 a0, Fin 0, store32 a4, Fin 0, store32 a2, Fin 0, NaN, Fin 0,
        store32 a1, Fin 0, store32 a5, Fin 0]"
proof -
  have len: "length [a0, a1, a2, a3, a4, a5] = 6" by simp
  show ?thesis
    unfolding bitReverse_def Let_def len upt_six
    by (simp add: reverseBits_six ta_set_def ta_get_int_def ta_get_def numeral_eval)
qed

lemma NaN_absorbs [simp]:
  "nadd x NaN = NaN" "nadd NaN x = NaN" "nmul x NaN = NaN" "nmul NaN x = NaN"
  "nsub x NaN = NaN" "nsub NaN x = NaN"
  by (cases x; simp add: nsub_def)+

lemma NaN_absorbs64 [simp]:
  "add64 x NaN = NaN" "add64 NaN x = NaN" "mul64 x NaN = NaN" "mul64 NaN x = NaN"
  "sub64 x NaN = NaN" "sub64 NaN x = NaN"
  by (simp_all add: add64_def sub64_def mul64_def)

text \<open>
  The pass of size 2 on six entries of which entry 3 has a \<open>NaN\<close> part: the block of the
  entries 2 and 3 becomes \<open>NaN\<close>. The pass of size 4 then pairs every entry with a \<open>NaN\<close>
  entry or with one read past the end of the array.
\<close>

lemma fft_six_pass2:
  "\<exists>y0 y1 y2 y3 y8 y9 y10 y11.
     fftBlocks 2 6 0 [b0, Fin 0, b4, Fin 0, b2, Fin 0, NaN, Fin 0, b1, Fin 0, b5, Fin 0]
       = [y0, y1, y2, y3, NaN, NaN, NaN, NaN, y8, y9, y10, y11]"
  by (simp add: fftBlocks.simps[of _ 6] butterfly_def Let_def ta_get_def ta_set_def numeral_eval)

lemma fft_six_pass4:
  "fftBlocks 4 6 0 [y0, y1, y2, y3, NaN, NaN, NaN, NaN, y8, y9, y10, y11] = replicate 12 NaN"
  by (simp add: fftBlocks.simps[of _ 6] butterfly_def Let_def ta_get_def ta_set_def numeral_eval
      upt_rec)

lemma performFFT_six:
  "complexValues (performFFT [a0, a1, a2, a3, a4, a5]) = replicate 12 NaN"
proof -
  have len: "length [a0, a1, a2, a3, a4, a5] = 6" by simp
  obtain y0 y1 y2 y3 y8 y9 y10 y11 where
    "fftBlocks 2 6 0 (bitReverse [a0, a1, a2, a3, a4, a5])
       = [y0, y1, y2, y3, NaN, NaN, NaN, NaN, y8, y9, y10, y11]"
    unfolding bitReverse_six
    using fft_six_pass2[of "store32 a0" "store32 a4" "store32 a2" "store32 a1" "store32 a5"]
    by blast
  then have "fftPasses 6 2 (bitReverse [a0, a1, a2, a3, a4, a5]) = replicate 12 NaN"
    by (simp add: fftPasses.simps[of 6] fft_six_pass4)
  then show ?thesis
    unfolding performFFT_def Let_def len by simp
qed

lemma list_six:
  "length xs = 6 \<Longrightarrow> \<exists>a0 a1 a2 a3 a4 a5. xs = [a0, a1, a2, a3, a4, a5]"
  by (auto simp: numeral_eq_Suc length_Suc_conv)

lemma performFFT_length_six:
  assumes "length xs = 6"
  shows "complexValues (performFFT xs) = replicate 12 NaN"
proof -
  from list_six[OF assms] obtain a0 a1 a2 a3 a4 a5 where "xs = [a0, a1, a2, a3, a4, a5]"
    by blast
  then show ?thesis
    by (simp only: performFFT_six)
qed

lemma spectrogramFrame_six:
  "spectrogramFrame \<lparr>ad_samples = [Fin x0, Fin x1, Fin x2, Fin x3, Fin x4, Fin x5],
                      ad_sampleRate = 6, ad_duration = 1\<rparr> 0 0 6 (Suc 0) 0
   = Inr \<lparr>frequencyBins = [Fin (- 120), Fin (- 120), Fin (- 120)],
          timePosition = Fin 0, frameDuration = Fin (1 / 6)\<rparr>"
proof -
  let ?w = "applyWindow (frameSamples [Fin x0, Fin x1, Fin x2, Fin x3, Fin x4, Fin x5] 0 6) HANNING"
  have fft: "complexValues (performFFT ?w) = replicate 12 NaN"
    by (rule performFFT_length_six) simp
  have three: "[0..<6 div 2] = [0, 1, 2]"
    by (simp add: upt_rec)
  have ps: "calculatePowerSpectrum (performFFT ?w) 6
     = Inr \<lparr>powerValues = [NaN, NaN, NaN], numBins = 3,
            ps_frequencyResolution =
              (if 0 < fft_size (performFFT ?w) then 1 / real (fft_size (performFFT ?w)) else 0)\<rparr>"
    unfolding calculatePowerSpectrum_def fft three
    by (simp add: ta_get_def numeral_eval)
  have db: "powerToDb 6 NaN = Fin (- 120)"
    by (simp add: powerToDb_def Let_def ngreater_def MIN_DB_DISPLAY_def)
  show ?thesis
    unfolding spectrogramFrame_def Let_def
    by (simp add: ps convertToDBSpectrum_def Let_def db)
qed

text \<open>
  Claim C1. Nothing checks \<open>fftSize\<close>. With \<open>fftSize = 6\<close> on six samples (any finite
  values) \<open>calculateSpectrogram\<close> processes the frame and returns: the bit reversal reads
  \<open>samples[6]\<close>, the passes for the sizes 2 and 4 spread the resulting \<open>NaN\<close> over the whole
  spectrum, and every bin ends at the floor \<open>-120\<close>, whatever the samples. With an odd size
  the frame is processed up to \<open>new Array(fftSize / 2)\<close>, which throws a \<open>RangeError\<close>.
\<close>

theorem non_power_of_two_fftSize_not_rejected:
  "calculateSpectrogram \<lparr>ad_samples = [Fin x0, Fin x1, Fin x2, Fin x3, Fin x4, Fin x5],
                          ad_sampleRate = 6, ad_duration = 1\<rparr> 0 1 6 1
   = Returns \<lparr>sd_frames = [\<lparr>frequencyBins = [Fin (- 120), Fin (- 120), Fin (- 120)],
                              timePosition = Fin 0, frameDuration = Fin (1 / 6)\<rparr>],
              sd_sampleRate = 6, sd_fftSize = 6, sd_hopSize = 1, sd_duration = 1,
              sd_numFrequencyBins = 3, sd_frequencyResolution = Fin 1,
              sd_timeResolution = Fin (1 / 6)\<rparr>
   \<and> calculateSpectrogram \<lparr>ad_samples = [Fin x0, Fin x1, Fin x2],
                          ad_sampleRate = 3, ad_duration = 1\<rparr> 0 1 3 1
     = Throws RangeError"
proof
  have one: "[0..<Suc 0] = [0]" by simp
  show "calculateSpectrogram \<lparr>ad_samples = [Fin x0, Fin x1, Fin x2, Fin x3, Fin x4, Fin x5],
                          ad_sampleRate = 6, ad_duration = 1\<rparr> 0 1 6 1
   = Returns \<lparr>sd_frames = [\<lparr>frequencyBins = [Fin (- 120), Fin (- 120), Fin (- 120)],
                              timePosition = Fin 0, frameDuration = Fin (1 / 6)\<rparr>],
              sd_sampleRate = 6, sd_fftSize = 6, sd_hopSize = 1, sd_duration = 1,
              sd_numFrequencyBins = 3, sd_frequencyResolution = Fin 1,
              sd_timeResolution = Fin (1 / 6)\<rparr>"
    by (subst calculateSpectrogram_cases)
       (simp_all add: frameCount_def fl_numeral spectrogramFrame_six)
  show "calculateSpectrogram \<lparr>ad_samples = [Fin x0, Fin x1, Fin x2],
                          ad_sampleRate = 3, ad_duration = 1\<rparr> 0 1 3 1
     = Throws RangeError"
    by (subst calculateSpectrogram_cases)
       (simp_all add: frameCount_def fl_numeral spectrogramFrame_def Let_def
          calculatePowerSpectrum_def)
qed

section \<open>Peak-preserving downsampling at a rounded boundary\<close>

lemma step_61_7: "fl (61 / 7) = 4905706736957147 / 2 ^ 49"
  by (subst fl_pos_eval[of _ 49]) (simp_all add: round_even_def)

lemma frameBound_61_7:
  "frameBound (fl (61 / 7)) 0 = 0"
  "frameBound (fl (61 / 7)) 1 = 8"
  "frameBound (fl (61 / 7)) 2 = 17"
  "frameBound (fl (61 / 7)) 3 = 26"
  "frameBound (fl (61 / 7)) 4 = 34"
  "frameBound (fl (61 / 7)) 5 = 43"
  "frameBound (fl (61 / 7)) 6 = 52"
  "frameBound (fl (61 / 7)) 7 = 60"
  unfolding frameBound_def step_61_7
         apply (simp add: fl_zero)
        apply (subst fl_pos_eval[of _ 49]; simp add: round_even_def)
       apply (subst fl_pos_eval[of _ 48]; simp add: round_even_def)
      apply (subst fl_pos_eval[of _ 48]; simp add: round_even_def)
     apply (subst fl_pos_eval[of _ 47]; simp add: round_even_def)
    apply (subst fl_pos_eval[of _ 47]; simp add: round_even_def)
   apply (subst fl_pos_eval[of _ 47]; simp add: round_even_def)
  apply (subst fl_pos_eval[of _ 47]; simp add: round_even_def)
  done


lemma frameBound_61_7_Suc:
  "frameBound (fl (61 / 7)) (Suc 0) = 8" "frameBound (fl (61 / 7)) (Suc (Suc 0)) = 17"
  using frameBound_61_7(2,3) by (simp_all add: numeral_2_eq_2)

lemma peakStep_single:
  assumes "spectrogramData ! j = [Fin a]" "x = NegInf \<or> x = Fin a"
  shows "peakStep spectrogramData j [x] = [Fin a]"
  using assms by (auto simp: peakStep_def Let_def arr_set_def ta_get_def nmax_def)

lemma fold_peak_const:
  assumes "\<And>j. s \<le> j \<Longrightarrow> j < e \<Longrightarrow> spectrogramData ! j = [Fin a]" "s < e"
  shows "fold (peakStep spectrogramData) [s..<e] [NegInf] = [Fin a]"
  using assms
proof (induction e)
  case 0
  then show ?case by simp
next
  case (Suc e)
  have last: "spectrogramData ! e = [Fin a]"
    using Suc.prems by simp
  show ?case
  proof (cases "s < e")
    case True
    then have "fold (peakStep spectrogramData) [s..<e] [NegInf] = [Fin a]"
      using Suc by simp
    then show ?thesis
      using True last by (simp add: peakStep_single)
  next
    case False
    with Suc.prems have "s = e" by simp
    then show ?thesis
      using last by (simp add: peakStep_single)
  qed
qed

lemma quiet_rows:
  "j < 60 \<Longrightarrow> (replicate 60 [Fin (- 50)] @ [[Fin (- 10)]]) ! j = [Fin (- 50)]"
  by (simp add: nth_append)

lemma peakColumn_window:
  assumes "frameBound step i = int s" "frameBound step (i + 1) = int e" "s < e" "e \<le> 60"
  shows "peakColumn (replicate 60 [Fin (- 50)] @ [[Fin (- 10)]]) step i = Inr [Fin (- 50)]"
proof -
  let ?data = "replicate 60 [Fin (- 50)] @ [[Fin (- 10)]]"
  have first: "row ?data 0 = Some [Fin (- 50)]"
    by (simp add: row_def nth_append)
  have window: "fold (peakStep ?data) [s..<e] [NegInf] = [Fin (- 50)]"
    using assms(3,4) by (intro fold_peak_const quiet_rows) simp_all
  have e: "min (int e) (int (length ?data)) = int e"
    using assms(4) by simp
  show ?thesis
    unfolding peakColumn_def Let_def assms(1,2) e first
    using assms(3) window by simp
qed

lemma peakColumn_61_7:
  assumes "i < 7"
  shows "peakColumn (replicate 60 [Fin (- 50)] @ [[Fin (- 10)]]) (fl (61 / 7)) i = Inr [Fin (- 50)]"
proof -
  from assms consider "i = 0" | "i = 1" | "i = 2" | "i = 3" | "i = 4" | "i = 5" | "i = 6"
    by linarith
  then show ?thesis
  proof cases
    case 1
    then show ?thesis
      by (intro peakColumn_window[of _ _ 0 8]) (simp_all add: frameBound_61_7 frameBound_61_7_Suc)
  next
    case 2
    then show ?thesis
      by (intro peakColumn_window[of _ _ 8 17]) (simp_all add: frameBound_61_7 frameBound_61_7_Suc)
  next
    case 3
    then show ?thesis
      by (intro peakColumn_window[of _ _ 17 26]) (simp_all add: frameBound_61_7)
  next
    case 4
    then show ?thesis
      by (intro peakColumn_window[of _ _ 26 34]) (simp_all add: frameBound_61_7)
  next
    case 5
    then show ?thesis
      by (intro peakColumn_window[of _ _ 34 43]) (simp_all add: frameBound_61_7)
  next
    case 6
    then show ?thesis
      by (intro peakColumn_window[of _ _ 43 52]) (simp_all add: frameBound_61_7)
  next
    case 7
    then show ?thesis
      by (intro peakColumn_window[of _ _ 52 60]) (simp_all add: frameBound_61_7)
  qed
qed

text \<open>
  Claim C5. 61 frames of one bin, all at \<open>-50\<close> dB but the last, which is at \<open>-10\<close> dB,
  downsampled to 7 columns. The exact window of column 6 is \<open>[52, 61)\<close> and holds the last
  frame, so the claim gives \<open>-10\<close> there. The code computes \<open>step = 61 / 7\<close> and
  \<open>7 * step\<close> in binary64, which is \<open>60.99999999999999\<close>, so its last window is
  \<open>[52, 60)\<close>: frame 60 is in no window and every output column is \<open>-50\<close>, less than an
  input value of the claimed window.
\<close>

theorem peak_downsample_drops_last_frame:
  "peakPreservingDownsample (replicate 60 [Fin (- 50)] @ [[Fin (- 10)]]) 7
     = Inr (replicate 7 [Fin (- 50)])
   \<and> resampleSpectrogram (replicate 60 [Fin (- 50)] @ [[Fin (- 10)]]) 7
     = Inr (replicate 7 [Fin (- 50)])
   \<and> \<lfloor>6 * 61 / (7::real)\<rfloor> = 52 \<and> min \<lfloor>7 * 61 / (7::real)\<rfloor> 61 = 61
   \<and> (replicate 60 [Fin (- 50)] @ [[Fin (- 10)]]) ! 60 = [Fin (- 10)]"
proof -
  let ?data = "replicate 60 [Fin (- 50)] @ [[Fin (- 10)]]"
  have "collectFrames (peakColumn ?data (fl (61 / 7))) [0..<7]
      = Inr (map (\<lambda>i. [Fin (- 50)]) [0..<7])"
    by (rule collectFrames_total) (simp add: peakColumn_61_7)
  then have peak: "peakPreservingDownsample ?data 7 = Inr (replicate 7 [Fin (- 50)])"
    by (simp add: peakPreservingDownsample_def Let_def map_replicate_const)
  then have "resampleSpectrogram ?data 7 = Inr (replicate 7 [Fin (- 50)])"
    by (simp add: resampleSpectrogram_def Let_def)
  moreover have "(replicate 60 [Fin (- 50)] @ [[Fin (- 10)]]) ! 60 = [Fin (- 10)]"
    by (simp add: nth_append)
  ultimately show ?thesis
    using peak by simp
qed

section \<open>The fast Fourier transform and the discrete Fourier transform\<close>

subsection \<open>The error of a rounding\<close>

lemma round_even_err: "\<bar>real_of_int (round_even y) - y\<bar> \<le> 1 / 2"
proof -
  have "of_int \<lfloor>y\<rfloor> \<le> y" "y < of_int \<lfloor>y\<rfloor> + 1"
    by linarith+
  then show ?thesis
    by (auto simp: round_even_def Let_def abs_le_iff)
qed

lemma round_at_scale_err:
  assumes "0 < s"
  shows "\<bar>real_of_int (round_even (x / s)) * s - x\<bar> \<le> s / 2"
proof -
  have "real_of_int (round_even (x / s)) * s - x = (real_of_int (round_even (x / s)) - x / s) * s"
    using assms by (simp add: field_simps)
  then have "\<bar>real_of_int (round_even (x / s)) * s - x\<bar>
      = \<bar>real_of_int (round_even (x / s)) - x / s\<bar> * s"
    using assms by (simp add: abs_mult)
  also have "\<dots> \<le> 1 / 2 * s"
    using round_even_err[of "x / s"] assms by (intro mult_right_mono) simp_all
  finally show ?thesis by simp
qed

lemma powr_floor_log2_le:
  assumes "x \<noteq> 0"
  shows "2 powr (real_of_int (\<lfloor>log 2 \<bar>x\<bar>\<rfloor> - int p)) \<le> \<bar>x\<bar> / 2 ^ p"
proof -
  have "2 powr (real_of_int \<lfloor>log 2 \<bar>x\<bar>\<rfloor>) \<le> 2 powr (log 2 \<bar>x\<bar>)"
    by (intro powr_mono) simp_all
  also have "\<dots> = \<bar>x\<bar>"
    using assms by simp
  finally have "2 powr (real_of_int \<lfloor>log 2 \<bar>x\<bar>\<rfloor>) / 2 ^ p \<le> \<bar>x\<bar> / 2 ^ p"
    by (simp add: divide_right_mono)
  moreover have "2 powr (real_of_int (\<lfloor>log 2 \<bar>x\<bar>\<rfloor> - int p))
      = 2 powr (real_of_int \<lfloor>log 2 \<bar>x\<bar>\<rfloor>) / 2 ^ p"
    by (simp add: powr_diff powr_realpow)
  ultimately show ?thesis by simp
qed

lemma fl_err: "\<bar>fl x - x\<bar> \<le> \<bar>x\<bar> / 2 ^ 53"
proof (cases "x = 0")
  case True
  then show ?thesis by simp
next
  case False
  define s where "s = 2 powr (real_of_int (\<lfloor>log 2 \<bar>x\<bar>\<rfloor> - 52))"
  have s: "0 < s" by (simp add: s_def)
  have "fl x = real_of_int (round_even (x / s)) * s"
    using False by (simp add: fl_def Let_def s_def)
  then have "\<bar>fl x - x\<bar> \<le> s / 2"
    using round_at_scale_err[OF s, of x] by simp
  moreover have "s \<le> \<bar>x\<bar> / 2 ^ 52"
    unfolding s_def using powr_floor_log2_le[OF False, of 52] by simp
  ultimately show ?thesis by simp
qed

lemma fround32_err: "\<bar>fround32 x - x\<bar> \<le> \<bar>x\<bar> / 2 ^ 24 + 1 / 2 ^ 150"
proof (cases "x = 0")
  case True
  then show ?thesis by simp
next
  case False
  define s where "s = 2 powr (real_of_int (max (\<lfloor>log 2 \<bar>x\<bar>\<rfloor> - 23) (- 149)))"
  have s: "0 < s" by (simp add: s_def)
  have "fround32 x = real_of_int (round_even (x / s)) * s"
    using False by (simp add: fround32_def Let_def s_def)
  then have e: "\<bar>fround32 x - x\<bar> \<le> s / 2"
    using round_at_scale_err[OF s, of x] by simp
  have "s \<le> \<bar>x\<bar> / 2 ^ 23 + 1 / 2 ^ 149"
  proof (cases "\<lfloor>log 2 \<bar>x\<bar>\<rfloor> - 23 \<le> - 149")
    case True
    then have "s = 2 powr (real_of_int (- 149))"
      by (simp add: s_def max_def)
    also have "\<dots> = 1 / 2 ^ 149"
      by (simp add: powr_minus_divide powr_realpow)
    finally show ?thesis by simp
  next
    case False
    then have "s = 2 powr (real_of_int (\<lfloor>log 2 \<bar>x\<bar>\<rfloor> - 23))"
      by (simp add: s_def max_def)
    then have "s \<le> \<bar>x\<bar> / 2 ^ 23"
      using powr_floor_log2_le[OF \<open>x \<noteq> 0\<close>, of 23] by simp
    then show ?thesis by (simp add: add_increasing2)
  qed
  with e show ?thesis by simp
qed

subsection \<open>Cosine and sine\<close>

lemma cos_lipschitz: "\<bar>cos x - cos y\<bar> \<le> \<bar>x - y\<bar>" for x y :: real
proof -
  have "\<bar>cos x - cos y\<bar> = 2 * \<bar>sin ((x + y) / 2)\<bar> * \<bar>sin ((y - x) / 2)\<bar>"
    by (simp add: cos_diff_cos abs_mult)
  also have "\<dots> \<le> 2 * 1 * \<bar>(y - x) / 2\<bar>"
    by (intro mult_mono mult_nonneg_nonneg abs_sin_x_le_abs_x) simp_all
  finally show ?thesis by simp
qed

lemma sin_lipschitz: "\<bar>sin x - sin y\<bar> \<le> \<bar>x - y\<bar>" for x y :: real
proof -
  have "\<bar>sin x - sin y\<bar> = 2 * \<bar>sin ((x - y) / 2)\<bar> * \<bar>cos ((x + y) / 2)\<bar>"
    by (simp add: sin_diff_sin abs_mult)
  also have "\<dots> \<le> 2 * \<bar>(x - y) / 2\<bar> * 1"
    by (intro mult_mono mult_nonneg_nonneg abs_sin_x_le_abs_x) simp_all
  finally show ?thesis by simp
qed

subsection \<open>The twiddle factors\<close>

lemma abs_le_add: "\<bar>x - y\<bar> \<le> d \<Longrightarrow> \<bar>x\<bar> \<le> \<bar>y\<bar> + d" for x y d :: real
  by linarith

lemma fl_err_bound:
  assumes "\<bar>x\<bar> \<le> B"
  shows "\<bar>fl x - x\<bar> \<le> B / 2 ^ 53"
proof -
  have "\<bar>x\<bar> / 2 ^ 53 \<le> B / 2 ^ 53"
    using assms by (simp add: divide_right_mono)
  with fl_err[of x] show ?thesis by linarith
qed

lemma Math_PI_err: "\<bar>Math_PI - pi\<bar> \<le> 4 / 2 ^ 53"
  unfolding Math_PI_def using pi_less_4 pi_gt_zero by (intro fl_err_bound) simp

lemma angle_err:
  assumes h: "0 < h" and i: "i < h"
  shows "\<bar>fl (fl (fl (- 2 * Math_PI) / real (2 * h)) * real i)
          - (- 2 * pi / real (2 * h) * real i)\<bar> \<le> 18 / 2 ^ 53"
proof -
  define sz where "sz = real (2 * h)"
  define q where "q = fl (- 2 * Math_PI)"
  define a where "a = fl (q / sz)"
  have sz: "0 < sz" "real i \<le> sz / 2" "1 \<le> sz"
    using h i by (simp_all add: sz_def)
  have P: "\<bar>Math_PI - pi\<bar> \<le> 4 / 2 ^ 53" by (rule Math_PI_err)
  have "\<bar>Math_PI\<bar> \<le> 4 + 4 / 2 ^ 53"
    using P pi_less_4 pi_gt_zero by linarith
  then have "\<bar>- 2 * Math_PI\<bar> \<le> 9" by simp
  then have "\<bar>q - (- 2 * Math_PI)\<bar> \<le> 9 / 2 ^ 53"
    unfolding q_def by (rule fl_err_bound)
  with P have q: "\<bar>q + 2 * pi\<bar> \<le> 17 / 2 ^ 53"
    by linarith
  note q
  moreover have "(17::real) / 2 ^ 53 \<le> 1" by simp
  ultimately have qb: "\<bar>q\<bar> \<le> 9"
    using pi_less_4 pi_gt_zero by linarith
  have "\<bar>q / sz\<bar> \<le> 9 / sz"
    using qb sz by (simp add: divide_right_mono)
  then have "\<bar>a - q / sz\<bar> \<le> 9 / sz / 2 ^ 53"
    unfolding a_def by (rule fl_err_bound)
  moreover have "\<bar>q / sz + 2 * pi / sz\<bar> \<le> 17 / 2 ^ 53 / sz"
  proof -
    have "\<bar>q / sz + 2 * pi / sz\<bar> = \<bar>q + 2 * pi\<bar> / sz"
      using sz by (simp add: add_divide_distrib[symmetric])
    also have "\<dots> \<le> 17 / 2 ^ 53 / sz"
      using q sz by (intro divide_right_mono) simp_all
    finally show ?thesis .
  qed
  ultimately have "\<bar>a + 2 * pi / sz\<bar> \<le> 9 / sz / 2 ^ 53 + 17 / 2 ^ 53 / sz"
    by linarith
  then have a: "\<bar>a + 2 * pi / sz\<bar> \<le> 26 / 2 ^ 53 / sz"
    by (simp add: field_simps)
  have "2 * pi / sz \<le> 8 / sz"
    using pi_less_4 sz by (intro divide_right_mono) simp_all
  moreover have "0 \<le> 2 * pi / sz" using sz by simp
  moreover have "26 / 2 ^ 53 / sz \<le> 1 / sz"
    using sz by (intro divide_right_mono) simp_all
  moreover have "8 / sz + 1 / sz = 9 / sz"
    by (simp add: add_divide_distrib[symmetric])
  ultimately have ab: "\<bar>a\<bar> \<le> 9 / sz"
    using a by linarith
  have "\<bar>a * real i\<bar> \<le> 9 / sz * (sz / 2)"
    unfolding abs_mult using ab sz by (intro mult_mono) simp_all
  then have "\<bar>a * real i\<bar> \<le> 9 / 2"
    using sz by simp
  then have e1: "\<bar>fl (a * real i) - a * real i\<bar> \<le> 9 / 2 / 2 ^ 53"
    by (rule fl_err_bound)
  have "a * real i - (- 2 * pi / sz * real i) = (a + 2 * pi / sz) * real i"
    by (simp add: algebra_simps)
  then have "\<bar>a * real i - (- 2 * pi / sz * real i)\<bar> = \<bar>a + 2 * pi / sz\<bar> * real i"
    by (simp only: abs_mult abs_of_nat)
  also have "\<dots> \<le> 26 / 2 ^ 53 / sz * (sz / 2)"
    using a sz by (intro mult_mono) simp_all
  also have "\<dots> = 13 / 2 ^ 53"
    using sz by simp
  finally have e2: "\<bar>a * real i - (- 2 * pi / sz * real i)\<bar> \<le> 13 / 2 ^ 53" .
  from e1 e2 have "\<bar>fl (a * real i) - (- 2 * pi / sz * real i)\<bar> \<le> 18 / 2 ^ 53"
    by linarith
  then show ?thesis
    by (simp only: a_def q_def sz_def)
qed

lemma fl_cos_err: "\<bar>fl (cos x) - cos x\<bar> \<le> 1 / 2 ^ 53"
  by (intro fl_err_bound) simp

lemma fl_sin_err: "\<bar>fl (sin x) - sin x\<bar> \<le> 1 / 2 ^ 53"
  by (intro fl_err_bound) simp

lemma twiddle64_parts:
  assumes h: "0 < h" and i: "i < h"
  shows "\<bar>Re (twiddle64 (2 * h) i) - Re (twiddle h i)\<bar> \<le> 19 / 2 ^ 53"
    and "\<bar>Im (twiddle64 (2 * h) i) - Im (twiddle h i)\<bar> \<le> 19 / 2 ^ 53"
proof -
  let ?ang = "fl (fl (fl (- 2 * Math_PI) / real (2 * h)) * real i)"
  let ?th = "- 2 * pi / real (2 * h) * real i"
  note e = angle_err[OF h i]
  have "\<bar>fl (cos ?ang) - cos ?th\<bar> \<le> 19 / 2 ^ 53"
    using fl_cos_err[of ?ang] cos_lipschitz[of ?ang ?th] e by linarith
  then show "\<bar>Re (twiddle64 (2 * h) i) - Re (twiddle h i)\<bar> \<le> 19 / 2 ^ 53"
    by (simp add: twiddle64_def twiddle_def Let_def)
  have "\<bar>fl (sin ?ang) - sin ?th\<bar> \<le> 19 / 2 ^ 53"
    using fl_sin_err[of ?ang] sin_lipschitz[of ?ang ?th] e by linarith
  then show "\<bar>Im (twiddle64 (2 * h) i) - Im (twiddle h i)\<bar> \<le> 19 / 2 ^ 53"
    by (simp add: twiddle64_def twiddle_def Let_def)
qed

lemma cmod_le_parts: "cmod z \<le> \<bar>Re z\<bar> + \<bar>Im z\<bar>"
  by (rule cmod_le)

lemma twiddle64_err:
  assumes h: "0 < h" and i: "i < h"
  shows "cmod (twiddle64 (2 * h) i - twiddle h i) \<le> 1 / 2 ^ 47"
    and "\<bar>Re (twiddle64 (2 * h) i)\<bar> \<le> 2" and "\<bar>Im (twiddle64 (2 * h) i)\<bar> \<le> 2"
proof -
  note p = twiddle64_parts[OF h i]
  have "cmod (twiddle64 (2 * h) i - twiddle h i)
      \<le> \<bar>Re (twiddle64 (2 * h) i) - Re (twiddle h i)\<bar> + \<bar>Im (twiddle64 (2 * h) i) - Im (twiddle h i)\<bar>"
    using cmod_le_parts[of "twiddle64 (2 * h) i - twiddle h i"] by simp
  with p show "cmod (twiddle64 (2 * h) i - twiddle h i) \<le> 1 / 2 ^ 47"
    by simp
  have "\<bar>Re (twiddle h i)\<bar> \<le> 1" "\<bar>Im (twiddle h i)\<bar> \<le> 1" "(19::real) / 2 ^ 53 \<le> 1"
    by (simp_all add: twiddle_def)
  with p show "\<bar>Re (twiddle64 (2 * h) i)\<bar> \<le> 2" "\<bar>Im (twiddle64 (2 * h) i)\<bar> \<le> 2"
    by linarith+
qed

lemma norm_twiddle [simp]: "cmod (twiddle h t) = 1"
  by (simp add: twiddle_def)

subsection \<open>One butterfly on finite values\<close>

lemma eps_facts:
  "0 < eps64" "0 < eps32" "0 < tiny32" "eps64 \<le> 1 / 2" "eps32 \<le> 1"
  by (simp_all add: eps64_def eps32_def tiny32_def)

lemma fl_err_eps:
  assumes "\<bar>x\<bar> \<le> B"
  shows "\<bar>fl x - x\<bar> \<le> B * eps64"
  using fl_err_bound[OF assms] by (simp add: eps64_def)

lemma fround32_err_eps:
  assumes "\<bar>x\<bar> \<le> B"
  shows "\<bar>fround32 x - x\<bar> \<le> B * eps32 + tiny32"
proof -
  have "\<bar>x\<bar> / 2 ^ 24 \<le> B / 2 ^ 24"
    using assms by (simp add: divide_right_mono)
  with fround32_err[of x] show ?thesis
    by (simp add: eps32_def tiny32_def)
qed

lemma twiddle64_err_eps:
  assumes "0 < h" "i < h"
  shows "cmod (twiddle64 (2 * h) i - twiddle h i) \<le> 64 * eps64"
  using twiddle64_err(1)[OF assms] by (simp add: eps64_def)

text \<open>The rounded difference and the rounded sum of two rounded products.\<close>

lemma fl_sub_err:
  assumes "\<bar>p\<bar> \<le> B" "\<bar>q\<bar> \<le> B"
  shows "\<bar>fl (fl p - fl q) - (p - q)\<bar> \<le> B * (6 * eps64)"
proof -
  have B: "0 \<le> B" using assms(1) by linarith
  note e1 = fl_err_eps[OF assms(1)] and e2 = fl_err_eps[OF assms(2)]
  have "B * eps64 \<le> B * (1 / 2)"
    using B eps_facts by (intro mult_left_mono) simp_all
  with e1 e2 assms have "\<bar>fl p - fl q\<bar> \<le> 3 * B"
    by linarith
  from fl_err_eps[OF this] e1 e2 show ?thesis
    by (simp add: algebra_simps)
qed

lemma fl_add_err:
  assumes "\<bar>p\<bar> \<le> B" "\<bar>q\<bar> \<le> B"
  shows "\<bar>fl (fl p + fl q) - (p + q)\<bar> \<le> B * (6 * eps64)"
proof -
  have B: "0 \<le> B" using assms(1) by linarith
  note e1 = fl_err_eps[OF assms(1)] and e2 = fl_err_eps[OF assms(2)]
  have "B * eps64 \<le> B * (1 / 2)"
    using B eps_facts by (intro mult_left_mono) simp_all
  with e1 e2 assms have "\<bar>fl p + fl q\<bar> \<le> 3 * B"
    by linarith
  from fl_err_eps[OF this] e1 e2 show ?thesis
    by (simp add: algebra_simps)
qed

lemma abs_prod_le:
  fixes x y :: real
  assumes "\<bar>x\<bar> \<le> 2" "\<bar>y\<bar> \<le> Z"
  shows "\<bar>x * y\<bar> \<le> 2 * Z"
  unfolding abs_mult using assms by (intro mult_mono) simp_all

lemma rot64_err:
  assumes w: "\<bar>Re w\<bar> \<le> 2" "\<bar>Im w\<bar> \<le> 2"
  shows "cmod (rot64 w z - w * z) \<le> cmod z * (24 * eps64)"
proof -
  have z: "\<bar>Re z\<bar> \<le> cmod z" "\<bar>Im z\<bar> \<le> cmod z"
    by (rule abs_Re_le_cmod, rule abs_Im_le_cmod)
  define K where "K = 2 * cmod z * (6 * eps64)"
  have "\<bar>fl (fl (Re w * Re z) - fl (Im w * Im z)) - (Re w * Re z - Im w * Im z)\<bar> \<le> K"
    unfolding K_def by (intro fl_sub_err abs_prod_le w z)
  then have re: "\<bar>Re (rot64 w z - w * z)\<bar> \<le> K"
    by (simp add: rot64_def)
  have "\<bar>fl (fl (Re w * Im z) + fl (Im w * Re z)) - (Re w * Im z + Im w * Re z)\<bar> \<le> K"
    unfolding K_def by (intro fl_add_err abs_prod_le w z)
  then have im: "\<bar>Im (rot64 w z - w * z)\<bar> \<le> K"
    by (simp add: rot64_def)
  have "cmod (rot64 w z - w * z) \<le> \<bar>Re (rot64 w z - w * z)\<bar> + \<bar>Im (rot64 w z - w * z)\<bar>"
    by (rule cmod_le)
  also have "\<dots> \<le> K + K"
    using re im by (rule add_mono)
  also have "K + K = cmod z * (24 * eps64)"
    by (simp add: K_def)
  finally show ?thesis .
qed

text \<open>The rotation by the computed twiddle factor against the exact rotation.\<close>

lemma rotation_err:
  assumes h: "0 < h" and i: "i < h" and z: "cmod z \<le> M"
  shows "cmod (rot64 (twiddle64 (2 * h) i) z - twiddle h i * z) \<le> M * (88 * eps64)"
proof -
  let ?w' = "twiddle64 (2 * h) i" and ?w = "twiddle h i"
  have M: "0 \<le> M" using z norm_ge_zero[of z] by linarith
  have "rot64 ?w' z - ?w * z = (rot64 ?w' z - ?w' * z) + (?w' - ?w) * z"
    by (simp add: algebra_simps)
  then have "cmod (rot64 ?w' z - ?w * z) \<le> cmod (rot64 ?w' z - ?w' * z) + cmod ((?w' - ?w) * z)"
    by (simp only: norm_triangle_ineq)
  also have "\<dots> \<le> cmod z * (24 * eps64) + 64 * eps64 * cmod z"
    unfolding norm_mult
    by (intro add_mono rot64_err twiddle64_err(2,3)[OF h i] mult_right_mono
          twiddle64_err_eps[OF h i]) simp
  also have "\<dots> = cmod z * (88 * eps64)"
    by simp
  also have "\<dots> \<le> M * (88 * eps64)"
    using z eps_facts by (intro mult_right_mono) simp_all
  finally show ?thesis .
qed

text \<open>A sum rounded to binary64 and stored as binary32.\<close>

lemma store_err:
  assumes "\<bar>x\<bar> \<le> B"
  shows "\<bar>fround32 (fl x) - x\<bar> \<le> B * (eps32 + 2 * eps64) + tiny32"
proof -
  have B: "0 \<le> B" using assms by linarith
  note e1 = fl_err_eps[OF assms]
  then have "\<bar>fl x\<bar> \<le> B + B * eps64"
    using assms by linarith
  from fround32_err_eps[OF this]
  have e2: "\<bar>fround32 (fl x) - fl x\<bar> \<le> B * eps32 + B * eps64 * eps32 + tiny32"
    by (simp add: algebra_simps)
  have "B * eps64 * eps32 \<le> B * eps64 * 1"
    using B eps_facts by (intro mult_left_mono mult_nonneg_nonneg) simp_all
  with e1 e2 show ?thesis
    by (simp add: algebra_simps)
qed

lemma add32_err:
  assumes "cmod (a + z) \<le> S"
  shows "cmod (add32 a z - (a + z)) \<le> 2 * (S * (eps32 + 2 * eps64) + tiny32)"
proof -
  have "\<bar>Re a + Re z\<bar> \<le> S" "\<bar>Im a + Im z\<bar> \<le> S"
    using abs_Re_le_cmod[of "a + z"] abs_Im_le_cmod[of "a + z"] assms by simp_all
  from store_err[OF this(1)] store_err[OF this(2)]
  have "\<bar>Re (add32 a z - (a + z))\<bar> + \<bar>Im (add32 a z - (a + z))\<bar>
      \<le> 2 * (S * (eps32 + 2 * eps64) + tiny32)"
    by (simp add: add32_def)
  with cmod_le[of "add32 a z - (a + z)"] show ?thesis
    by linarith
qed

lemma sub32_err:
  assumes "cmod (a - z) \<le> S"
  shows "cmod (sub32 a z - (a - z)) \<le> 2 * (S * (eps32 + 2 * eps64) + tiny32)"
proof -
  have "\<bar>Re a - Re z\<bar> \<le> S" "\<bar>Im a - Im z\<bar> \<le> S"
    using abs_Re_le_cmod[of "a - z"] abs_Im_le_cmod[of "a - z"] assms by simp_all
  from store_err[OF this(1)] store_err[OF this(2)]
  have "\<bar>Re (sub32 a z - (a - z))\<bar> + \<bar>Im (sub32 a z - (a - z))\<bar>
      \<le> 2 * (S * (eps32 + 2 * eps64) + tiny32)"
    by (simp add: sub32_def)
  with cmod_le[of "sub32 a z - (a - z)"] show ?thesis
    by linarith
qed

lemma butterfly_const: "2 * ((2 + 88 * eps64) * (eps32 + 2 * eps64)) + 88 * eps64 \<le> 5 * eps32"
  by (simp add: eps64_def eps32_def)

text \<open>
  The two results of a butterfly, as computed, against \<open>even + w * odd\<close> and
  \<open>even - w * odd\<close>.
\<close>

lemma butterfly_err:
  assumes h: "0 < h" and i: "i < h" and e: "cmod e \<le> M" and z: "cmod z \<le> M"
  shows "cmod (add32 e (rot64 (twiddle64 (2 * h) i) z) - (e + twiddle h i * z))
           \<le> M * (5 * eps32) + 2 * tiny32"
    and "cmod (sub32 e (rot64 (twiddle64 (2 * h) i) z) - (e - twiddle h i * z))
           \<le> M * (5 * eps32) + 2 * tiny32"
proof -
  let ?T = "rot64 (twiddle64 (2 * h) i) z" and ?w = "twiddle h i"
  have M: "0 \<le> M" using z norm_ge_zero[of z] by linarith
  note r = rotation_err[OF h i z]
  have "cmod ?T \<le> cmod (?w * z) + cmod (?T - ?w * z)"
    using norm_triangle_ineq[of "?w * z" "?T - ?w * z"] by simp
  with r z have T: "cmod ?T \<le> M + M * (88 * eps64)"
    by (simp add: norm_mult)
  have Sp: "cmod (e + ?T) \<le> M * (2 + 88 * eps64)"
    using norm_triangle_ineq[of e ?T] e T by (simp add: algebra_simps)
  have Sm: "cmod (e - ?T) \<le> M * (2 + 88 * eps64)"
    using norm_triangle_ineq4[of e ?T] e T by (simp add: algebra_simps)
  have k: "2 * (M * (2 + 88 * eps64) * (eps32 + 2 * eps64) + tiny32) + M * (88 * eps64)
      \<le> M * (5 * eps32) + 2 * tiny32"
  proof -
    have "M * (2 * ((2 + 88 * eps64) * (eps32 + 2 * eps64)) + 88 * eps64) \<le> M * (5 * eps32)"
      using M butterfly_const by (rule mult_left_mono[rotated])
    then show ?thesis
      by (simp add: algebra_simps)
  qed
  have "add32 e ?T - (e + ?w * z) = (add32 e ?T - (e + ?T)) + (?T - ?w * z)"
    by simp
  then have "cmod (add32 e ?T - (e + ?w * z))
      \<le> cmod (add32 e ?T - (e + ?T)) + cmod (?T - ?w * z)"
    by (simp only: norm_triangle_ineq)
  with add32_err[OF Sp] r k
  show "cmod (add32 e ?T - (e + ?w * z)) \<le> M * (5 * eps32) + 2 * tiny32"
    by linarith
  have "sub32 e ?T - (e - ?w * z) = (sub32 e ?T - (e - ?T)) - (?T - ?w * z)"
    by simp
  then have "cmod (sub32 e ?T - (e - ?w * z))
      \<le> cmod (sub32 e ?T - (e - ?T)) + cmod (?T - ?w * z)"
    by (simp only: norm_triangle_ineq4)
  with sub32_err[OF Sm] r k
  show "cmod (sub32 e ?T - (e - ?w * z)) \<le> M * (5 * eps32) + 2 * tiny32"
    by linarith
qed

subsection \<open>Interleaved arrays of finite values\<close>

lemma all_finite_length: "all_finite c n \<Longrightarrow> length c = n * 2"
  by (simp add: all_finite_def)

lemma all_finite_nth: "all_finite c n \<Longrightarrow> k < n * 2 \<Longrightarrow> c ! k = Fin (the_fin (c ! k))"
  by (simp add: all_finite_def list_all_length)

lemma ta_get_finite: "all_finite c n \<Longrightarrow> k < n * 2 \<Longrightarrow> ta_get c k = Fin (the_fin (c ! k))"
  using all_finite_nth[of c n k] by (simp add: ta_get_def all_finite_def)

lemma all_finite_update:
  "all_finite c n \<Longrightarrow> all_finite (c[k := Fin x]) n"
  by (cases "k < length c")
     (auto simp: all_finite_def list_all_length nth_list_update list_update_beyond)

lemma cval_update_pair:
  assumes "p * 2 + 1 < length c"
  shows "cval (c[p * 2 := Fin x, p * 2 + 1 := Fin y]) k = (if k = p then Complex x y else cval c k)"
proof (cases "k = p")
  case True
  then show ?thesis using assms by (simp add: cval_def)
next
  case False
  then have "k * 2 \<noteq> p * 2" "k * 2 \<noteq> p * 2 + 1" "k * 2 + 1 \<noteq> p * 2" "k * 2 + 1 \<noteq> p * 2 + 1"
    by presburger+
  then show ?thesis
    using False by (simp add: cval_def)
qed

lemma cval_parts:
  assumes "all_finite c n" "k < n"
  shows "c ! (2 * k) = Fin (Re (cval c k))" "c ! (2 * k + 1) = Fin (Im (cval c k))"
proof -
  have "k * 2 < n * 2" "k * 2 + 1 < n * 2" using assms(2) by simp_all
  from all_finite_nth[OF assms(1) this(1)] all_finite_nth[OF assms(1) this(2)]
  show "c ! (2 * k) = Fin (Re (cval c k))" "c ! (2 * k + 1) = Fin (Im (cval c k))"
    by (simp_all add: cval_def mult.commute)
qed

text \<open>A finite value whose rounding stays below \<open>2^128\<close> is stored as that rounding.\<close>

lemma store32_Fin: "\<bar>fround32 x\<bar> < 2 ^ 128 \<Longrightarrow> store32 (Fin x) = Fin (fround32 x)"
  by simp

lemma store32_parts:
  assumes "cmod (Complex (fround32 x) (fround32 y)) < 2 ^ 128"
  shows "store32 (Fin x) = Fin (fround32 x)" "store32 (Fin y) = Fin (fround32 y)"
proof -
  have "\<bar>fround32 x\<bar> \<le> cmod (Complex (fround32 x) (fround32 y))"
    using abs_Re_le_cmod[of "Complex (fround32 x) (fround32 y)"] by simp
  with assms show "store32 (Fin x) = Fin (fround32 x)"
    by (intro store32_Fin) linarith
  have "\<bar>fround32 y\<bar> \<le> cmod (Complex (fround32 x) (fround32 y))"
    using abs_Im_le_cmod[of "Complex (fround32 x) (fround32 y)"] by simp
  with assms show "store32 (Fin y) = Fin (fround32 y)"
    by (intro store32_Fin) linarith
qed

text \<open>
  One butterfly, read as an operation on complex entries, when its results do not
  overflow.
\<close>

lemma butterfly_cval:
  assumes fin: "all_finite c n" and range: "start + i + sz div 2 < n" and half: "0 < sz div 2"
    and safe_lo: "cmod (add32 (cval c (start + i))
                     (rot64 (twiddle64 sz i) (cval c (start + i + sz div 2)))) < 2 ^ 128"
    and safe_hi: "cmod (sub32 (cval c (start + i))
                     (rot64 (twiddle64 sz i) (cval c (start + i + sz div 2)))) < 2 ^ 128"
  shows "all_finite (butterfly sz start i c) n"
    and "cval (butterfly sz start i c) =
           (cval c)(start + i + sz div 2 :=
                      sub32 (cval c (start + i))
                        (rot64 (twiddle64 sz i) (cval c (start + i + sz div 2))),
                    start + i :=
                      add32 (cval c (start + i))
                        (rot64 (twiddle64 sz i) (cval c (start + i + sz div 2))))"
proof -
  let ?a = "start + i" and ?o = "start + i + sz div 2"
  have len: "length c = n * 2" using fin by (rule all_finite_length)
  have idx: "?a * 2 < n * 2" "?a * 2 + 1 < n * 2" "?o * 2 < n * 2" "?o * 2 + 1 < n * 2"
    using range by simp_all
  note g = ta_get_finite[OF fin idx(1)] ta_get_finite[OF fin idx(2)]
    ta_get_finite[OF fin idx(3)] ta_get_finite[OF fin idx(4)]
  define er where "er = the_fin (c ! (?a * 2))"
  define ei where "ei = the_fin (c ! (?a * 2 + 1))"
  define or' where "or' = the_fin (c ! (?o * 2))"
  define oi where "oi = the_fin (c ! (?o * 2 + 1))"
  define w where "w = twiddle64 sz i"
  define T where "T = rot64 w (Complex or' oi)"
  have va: "cval c ?a = Complex er ei" and vo: "cval c ?o = Complex or' oi"
    by (simp_all add: cval_def er_def ei_def or'_def oi_def)
  have sz: "real sz \<noteq> 0" using half by auto
  have lo: "store32 (Fin (fl (er + Re T))) = Fin (fround32 (fl (er + Re T)))"
           "store32 (Fin (fl (ei + Im T))) = Fin (fround32 (fl (ei + Im T)))"
    using safe_lo unfolding va vo w_def[symmetric] T_def[symmetric] add32_def
    by (simp_all add: store32_parts del: store32.simps)
  have hi: "store32 (Fin (fl (er - Re T))) = Fin (fround32 (fl (er - Re T)))"
           "store32 (Fin (fl (ei - Im T))) = Fin (fround32 (fl (ei - Im T)))"
    using safe_hi unfolding va vo w_def[symmetric] T_def[symmetric] sub32_def
    by (simp_all add: store32_parts del: store32.simps)
  have tr: "sub64 (mul64 (Fin (Re w)) (Fin or')) (mul64 (Fin (Im w)) (Fin oi)) = Fin (Re T)"
    and ti: "add64 (mul64 (Fin (Re w)) (Fin oi)) (mul64 (Fin (Im w)) (Fin or')) = Fin (Im T)"
    by (simp_all add: T_def rot64_def sub64_def add64_def mul64_def)
  have cs: "Math_cos (mul64 (div64 (mul64 (Fin (- 2)) (Fin Math_PI)) (Fin (real sz))) (Fin (real i)))
              = Fin (Re w)"
           "Math_sin (mul64 (div64 (mul64 (Fin (- 2)) (Fin Math_PI)) (Fin (real sz))) (Fin (real i)))
              = Fin (Im w)"
    using sz by (simp_all add: w_def twiddle64_def Let_def Math_cos_def Math_sin_def mul64_def div64_def)
  have bf: "butterfly sz start i c =
      c[?o * 2 := Fin (fround32 (fl (er - Re T))),
        ?o * 2 + 1 := Fin (fround32 (fl (ei - Im T))),
        ?a * 2 := Fin (fround32 (fl (er + Re T))),
        ?a * 2 + 1 := Fin (fround32 (fl (ei + Im T)))]"
    unfolding butterfly_def Let_def g cs
    unfolding er_def[symmetric] ei_def[symmetric] or'_def[symmetric] oi_def[symmetric] tr ti
    using idx len by (simp add: ta_set_def sub64_def add64_def lo hi del: store32.simps)
  show "all_finite (butterfly sz start i c) n"
    unfolding bf by (intro all_finite_update fin)
  have ne: "?a \<noteq> ?o" using half by simp
  show "cval (butterfly sz start i c) =
           (cval c)(?o := sub32 (cval c ?a) (rot64 (twiddle64 sz i) (cval c ?o)),
                    ?a := add32 (cval c ?a) (rot64 (twiddle64 sz i) (cval c ?o)))"
  proof
    fix k
    have l1: "?o * 2 + 1 < length c" using idx len by simp
    have l2: "?a * 2 + 1 < length (c[?o * 2 := Fin (fround32 (fl (er - Re T))),
        ?o * 2 + 1 := Fin (fround32 (fl (ei - Im T)))])"
      using idx len by simp
    show "cval (butterfly sz start i c) k =
           ((cval c)(?o := sub32 (cval c ?a) (rot64 (twiddle64 sz i) (cval c ?o)),
                     ?a := add32 (cval c ?a) (rot64 (twiddle64 sz i) (cval c ?o)))) k"
      unfolding bf cval_update_pair[OF l2] cval_update_pair[OF l1] va vo
        w_def[symmetric] T_def[symmetric]
      using ne by (simp add: add32_def sub32_def)
  qed
qed

subsection \<open>One block, one pass\<close>

lemma block_cval:
  assumes fin: "all_finite c n" and range: "start + 2 * h \<le> n" and h: "0 < h" and j: "j \<le> h"
    and safe: "\<And>t. t < h \<Longrightarrow>
        cmod (add32 (cval c (start + t)) (rot64 (twiddle64 (2 * h) t) (cval c (start + t + h)))) < 2 ^ 128
      \<and> cmod (sub32 (cval c (start + t)) (rot64 (twiddle64 (2 * h) t) (cval c (start + t + h)))) < 2 ^ 128"
  shows "all_finite (fold (butterfly (2 * h) start) [0..<j] c) n
       \<and> cval (fold (butterfly (2 * h) start) [0..<j] c) =
           (\<lambda>p. if start \<le> p \<and> p < start + j
                  then add32 (cval c p) (rot64 (twiddle64 (2 * h) (p - start)) (cval c (p + h)))
                else if start + h \<le> p \<and> p < start + h + j
                  then sub32 (cval c (p - h)) (rot64 (twiddle64 (2 * h) (p - h - start)) (cval c p))
                else cval c p)"
  using j
proof (induction j)
  case 0
  then show ?case using fin by (auto simp: fun_eq_iff)
next
  case (Suc j)
  let ?cj = "fold (butterfly (2 * h) start) [0..<j] c"
  let ?new = "\<lambda>j p. if start \<le> p \<and> p < start + j
                  then add32 (cval c p) (rot64 (twiddle64 (2 * h) (p - start)) (cval c (p + h)))
                else if start + h \<le> p \<and> p < start + h + j
                  then sub32 (cval c (p - h)) (rot64 (twiddle64 (2 * h) (p - h - start)) (cval c p))
                else cval c p"
  from Suc have finj: "all_finite ?cj n" and vj: "cval ?cj = ?new j"
    by simp_all
  have hh: "2 * h div 2 = h" by simp
  have r: "start + j + h < n" "0 < h"
    using Suc.prems range h by simp_all
  have step: "fold (butterfly (2 * h) start) [0..<Suc j] c = butterfly (2 * h) start j ?cj"
    by simp
  have even: "cval ?cj (start + j) = cval c (start + j)"
    using Suc.prems by (simp add: vj)
  have odd: "cval ?cj (start + j + h) = cval c (start + j + h)"
    using h by (simp add: vj)
  have jh: "j < h" using Suc.prems by simp
  note s = safe[OF jh]
  have s1: "cmod (add32 (cval ?cj (start + j))
              (rot64 (twiddle64 (2 * h) j) (cval ?cj (start + j + h)))) < 2 ^ 128"
    unfolding even odd using s by (rule conjunct1)
  have s2: "cmod (sub32 (cval ?cj (start + j))
              (rot64 (twiddle64 (2 * h) j) (cval ?cj (start + j + h)))) < 2 ^ 128"
    unfolding even odd using s by (rule conjunct2)
  note bf = butterfly_cval[of ?cj n start j "2 * h", unfolded hh, OF finj r s1 s2]
  show ?case
    unfolding step
  proof
    show "all_finite (butterfly (2 * h) start j ?cj) n" by (rule bf(1))
    show "cval (butterfly (2 * h) start j ?cj) = ?new (Suc j)"
    proof
      fix p
      consider "p = start + j" | "p = start + j + h" | "p \<noteq> start + j" "p \<noteq> start + j + h"
        by blast
      then show "cval (butterfly (2 * h) start j ?cj) p = ?new (Suc j) p"
      proof cases
        case 1
        then show ?thesis
          using h by (simp add: bf(2) even odd)
      next
        case 2
        then show ?thesis
          using h Suc.prems by (simp add: bf(2) even odd)
      next
        case 3
        then show ?thesis
          by (auto simp: bf(2) vj)
      qed
    qed
  qed
qed

lemma div_mod_block:
  fixes d :: nat
  assumes "t < d"
  shows "(q * d + t) div d = q" "(q * d + t) mod d = t"
  using assms by simp_all

lemma half_block_low:
  fixes p h :: nat
  assumes "0 < h" "p mod (2 * h) < h"
  shows "(p + h) div (2 * h) = p div (2 * h)" "(p + h) mod (2 * h) = p mod (2 * h) + h"
proof -
  have "p = p div (2 * h) * (2 * h) + p mod (2 * h)"
    by (rule div_mult_mod_eq[symmetric])
  then have p: "p + h = p div (2 * h) * (2 * h) + (p mod (2 * h) + h)"
    by linarith
  have lt: "p mod (2 * h) + h < 2 * h"
    using assms by simp
  show "(p + h) div (2 * h) = p div (2 * h)"
    using div_mod_block(1)[OF lt, of "p div (2 * h)"] by (simp only: p)
  show "(p + h) mod (2 * h) = p mod (2 * h) + h"
    using div_mod_block(2)[OF lt, of "p div (2 * h)"] by (simp only: p)
qed

lemma half_block_high:
  fixes p h :: nat
  assumes "0 < h" "h \<le> p mod (2 * h)"
  shows "(p - h) div (2 * h) = p div (2 * h)" "(p - h) mod (2 * h) = p mod (2 * h) - h" "h \<le> p"
proof -
  have le: "p mod (2 * h) \<le> p" by (rule mod_less_eq_dividend)
  show hp: "h \<le> p" using le assms(2) by linarith
  have "p = p div (2 * h) * (2 * h) + p mod (2 * h)"
    by (rule div_mult_mod_eq[symmetric])
  then have p: "p - h = p div (2 * h) * (2 * h) + (p mod (2 * h) - h)"
    using assms(2) hp by linarith
  have lt: "p mod (2 * h) - h < 2 * h"
    using assms by (simp add: less_imp_diff_less)
  show "(p - h) div (2 * h) = p div (2 * h)"
    using div_mod_block(1)[OF lt, of "p div (2 * h)"] by (simp only: p)
  show "(p - h) mod (2 * h) = p mod (2 * h) - h"
    using div_mod_block(2)[OF lt, of "p div (2 * h)"] by (simp only: p)
qed

lemma block_range:
  fixes p sz :: nat
  assumes "0 < sz"
  shows "(q * sz \<le> p \<and> p < q * sz + sz) = (p div sz = q)"
proof
  assume "q * sz \<le> p \<and> p < q * sz + sz"
  then show "p div sz = q"
    using assms by (metis add.commute div_nat_eqI mult.commute mult_Suc_right)
next
  assume "p div sz = q"
  then have "p = q * sz + p mod sz" by auto
  moreover have "p mod sz < sz" using assms by simp
  ultimately show "q * sz \<le> p \<and> p < q * sz + sz" by linarith
qed

text \<open>The butterflies of one block, by block number and offset.\<close>

lemma block_pass_fl:
  assumes fin: "all_finite c (nb * (2 * h))" and h: "0 < h" and q: "q < nb"
    and safe: "\<And>p. p div (2 * h) = q \<Longrightarrow> cmod (pass_fl h (cval c) p) < 2 ^ 128"
  shows "all_finite (fold (butterfly (2 * h) (q * (2 * h))) [0..<h] c) (nb * (2 * h))"
    and "cval (fold (butterfly (2 * h) (q * (2 * h))) [0..<h] c) p =
           (if p div (2 * h) = q then pass_fl h (cval c) p else cval c p)"
proof -
  let ?sz = "2 * h" and ?start = "q * (2 * h)"
  have "Suc q * ?sz \<le> nb * ?sz"
    using q by (intro mult_le_mono1) simp
  then have range: "?start + 2 * h \<le> nb * ?sz"
    by simp
  have safe': "cmod (add32 (cval c (?start + t)) (rot64 (twiddle64 ?sz t) (cval c (?start + t + h)))) < 2 ^ 128
      \<and> cmod (sub32 (cval c (?start + t)) (rot64 (twiddle64 ?sz t) (cval c (?start + t + h)))) < 2 ^ 128"
    if t: "t < h" for t
  proof
    have t2: "t < ?sz" using t by simp
    have "cmod (pass_fl h (cval c) (?start + t)) < 2 ^ 128"
      by (rule safe) (rule div_mod_block(1)[OF t2])
    then show "cmod (add32 (cval c (?start + t))
        (rot64 (twiddle64 ?sz t) (cval c (?start + t + h)))) < 2 ^ 128"
      unfolding pass_fl_def div_mod_block(2)[OF t2] using t by (simp only: if_True)
    have th: "t + h < ?sz" using t by simp
    have "cmod (pass_fl h (cval c) (?start + (t + h))) < 2 ^ 128"
      by (rule safe) (rule div_mod_block(1)[OF th])
    then show "cmod (sub32 (cval c (?start + t))
        (rot64 (twiddle64 ?sz t) (cval c (?start + t + h)))) < 2 ^ 128"
      unfolding pass_fl_def div_mod_block(2)[OF th] by (simp add: add.assoc)
  qed
  note blk = block_cval[OF fin range h order_refl safe']
  show "all_finite (fold (butterfly ?sz ?start) [0..<h] c) (nb * ?sz)"
    using blk by (rule conjunct1)
  have vp: "cval (fold (butterfly ?sz ?start) [0..<h] c) p =
      (if ?start \<le> p \<and> p < ?start + h
         then add32 (cval c p) (rot64 (twiddle64 ?sz (p - ?start)) (cval c (p + h)))
       else if ?start + h \<le> p \<and> p < ?start + h + h
         then sub32 (cval c (p - h)) (rot64 (twiddle64 ?sz (p - h - ?start)) (cval c p))
       else cval c p)"
    using blk[THEN conjunct2] by (rule fun_cong)
  have sz: "0 < ?sz" using h by simp
  show "cval (fold (butterfly ?sz ?start) [0..<h] c) p =
           (if p div ?sz = q then pass_fl h (cval c) p else cval c p)"
  proof (cases "p div ?sz = q")
    case True
    then have in_block: "?start \<le> p" "p < ?start + ?sz"
      using block_range[OF sz, of q p] by simp_all
    have off: "p mod ?sz = p - ?start"
      using True by (metis add_diff_cancel_left' div_mult_mod_eq)
    show ?thesis
    proof (cases "p mod ?sz < h")
      case low: True
      then have A: "?start \<le> p \<and> p < ?start + h" using off in_block by linarith
      have "cval (fold (butterfly ?sz ?start) [0..<h] c) p
          = add32 (cval c p) (rot64 (twiddle64 ?sz (p - ?start)) (cval c (p + h)))"
        unfolding vp using A by (simp only: if_True simp_thms)
      also have "\<dots> = pass_fl h (cval c) p"
        unfolding pass_fl_def using low by (simp only: if_True off simp_thms)
      finally show ?thesis
        using True by (simp only: if_True simp_thms)
    next
      case high: False
      then have A: "\<not> (?start \<le> p \<and> p < ?start + h)"
        and B: "?start + h \<le> p \<and> p < ?start + h + h" using off in_block by linarith+
      have tw: "p - h - ?start = p mod ?sz - h"
        using off by simp
      have "cval (fold (butterfly ?sz ?start) [0..<h] c) p
          = sub32 (cval c (p - h)) (rot64 (twiddle64 ?sz (p - h - ?start)) (cval c p))"
        unfolding vp using A B by (simp only: if_True if_False simp_thms)
      also have "\<dots> = pass_fl h (cval c) p"
        unfolding pass_fl_def tw using high by (simp only: if_False simp_thms)
      finally show ?thesis
        using True by (simp only: if_True simp_thms)
    qed
  next
    case False
    then have "\<not> (?start \<le> p \<and> p < ?start + ?sz)"
      using block_range[OF sz, of q p] by simp
    then have A: "\<not> (?start \<le> p \<and> p < ?start + h)"
      and B: "\<not> (?start + h \<le> p \<and> p < ?start + h + h)"
      by linarith+
    have "cval (fold (butterfly ?sz ?start) [0..<h] c) p = cval c p"
      unfolding vp using A B by (simp only: if_False simp_thms)
    then show ?thesis
      using False by (simp only: if_False simp_thms)
  qed
qed

text \<open>The entries that a pass reads at \<open>p\<close> lie in the block of \<open>p\<close>.\<close>

lemma pass_fl_cong:
  assumes h: "0 < h" and same: "\<And>k. k div (2 * h) = p div (2 * h) \<Longrightarrow> f k = f' k"
  shows "pass_fl h f p = pass_fl h f' p"
proof (cases "p mod (2 * h) < h")
  case True
  from half_block_low(1)[OF h True] same show ?thesis
    using True by (simp add: pass_fl_def)
next
  case False
  then have "h \<le> p mod (2 * h)" by simp
  from half_block_high(1)[OF h this] same show ?thesis
    using False by (simp add: pass_fl_def)
qed

lemma fftBlocks_cval:
  assumes h: "0 < h" and fin: "all_finite c (nb * (2 * h))" and q0: "q0 \<le> nb"
    and safe: "\<And>p. q0 \<le> p div (2 * h) \<Longrightarrow> p div (2 * h) < nb
                 \<Longrightarrow> cmod (pass_fl h (cval c) p) < 2 ^ 128"
  shows "all_finite (fftBlocks (2 * h) (nb * (2 * h)) (q0 * (2 * h)) c) (nb * (2 * h))
       \<and> (\<forall>p. cval (fftBlocks (2 * h) (nb * (2 * h)) (q0 * (2 * h)) c) p =
           (if q0 \<le> p div (2 * h) \<and> p div (2 * h) < nb then pass_fl h (cval c) p
            else cval c p))"
  using fin q0 safe
proof (induction "nb - q0" arbitrary: q0 c)
  case 0
  then have "q0 = nb" by simp
  then have "fftBlocks (2 * h) (nb * (2 * h)) (q0 * (2 * h)) c = c"
    by (subst fftBlocks.simps) simp
  then show ?case
    using 0 \<open>q0 = nb\<close> by auto
next
  case (Suc d)
  let ?sz = "2 * h" and ?n = "nb * (2 * h)"
  let ?c1 = "fold (butterfly ?sz (q0 * ?sz)) [0..<h] c"
  from Suc.hyps(2) have q: "q0 < nb" by simp
  have lt: "q0 * ?sz < ?n \<and> 0 < ?sz"
    using q h by simp
  have next_start: "q0 * ?sz + ?sz = Suc q0 * ?sz" by simp
  have halfsz: "?sz div 2 = h" by simp
  have "fftBlocks ?sz ?n (q0 * ?sz) c =
      (if q0 * ?sz < ?n \<and> 0 < ?sz
       then fftBlocks ?sz ?n (q0 * ?sz + ?sz) (fold (butterfly ?sz (q0 * ?sz)) [0..<?sz div 2] c)
       else c)"
    by (rule fftBlocks.simps)
  then have unfold: "fftBlocks ?sz ?n (q0 * ?sz) c = fftBlocks ?sz ?n (Suc q0 * ?sz) ?c1"
    using lt by (simp only: if_True next_start halfsz simp_thms)
  have safe_q: "cmod (pass_fl h (cval c) p) < 2 ^ 128" if "p div ?sz = q0" for p
    using Suc.prems(3)[of p] that q by simp
  note blk = block_pass_fl[OF Suc.prems(1) h q safe_q]
  have d: "d = nb - Suc q0" using Suc.hyps(2) by simp
  have sq: "Suc q0 \<le> nb" using q by simp
  have same: "pass_fl h (cval ?c1) p = pass_fl h (cval c) p" if "Suc q0 \<le> p div ?sz" for p
  proof (rule pass_fl_cong[OF h])
    fix k assume "k div ?sz = p div ?sz"
    with that have "k div ?sz \<noteq> q0" by simp
    then show "cval ?c1 k = cval c k" by (simp only: blk(2) if_False simp_thms)
  qed
  have safe1: "cmod (pass_fl h (cval ?c1) p) < 2 ^ 128"
    if "Suc q0 \<le> p div ?sz" "p div ?sz < nb" for p
    unfolding same[OF that(1)] using Suc.prems(3)[of p] that by simp
  note IH = Suc.hyps(1)[OF d blk(1) sq safe1]
  show ?case
    unfolding unfold
  proof (intro conjI allI)
    show "all_finite (fftBlocks ?sz ?n (Suc q0 * ?sz) ?c1) ?n"
      using IH by (rule conjunct1)
    fix p
    have vp: "cval (fftBlocks ?sz ?n (Suc q0 * ?sz) ?c1) p =
        (if Suc q0 \<le> p div ?sz \<and> p div ?sz < nb then pass_fl h (cval ?c1) p else cval ?c1 p)"
      using IH[THEN conjunct2] by (rule spec)
    show "cval (fftBlocks ?sz ?n (Suc q0 * ?sz) ?c1) p =
           (if q0 \<le> p div ?sz \<and> p div ?sz < nb then pass_fl h (cval c) p else cval c p)"
    proof (cases "Suc q0 \<le> p div ?sz \<and> p div ?sz < nb")
      case True
      then have s: "pass_fl h (cval ?c1) p = pass_fl h (cval c) p"
        using same by blast
      from True have "q0 \<le> p div ?sz \<and> p div ?sz < nb" by simp
      then show ?thesis
        unfolding vp s using True by (simp only: if_True simp_thms)
    next
      case False
      have v1: "cval (fftBlocks ?sz ?n (Suc q0 * ?sz) ?c1) p = cval ?c1 p"
        unfolding vp using False by (simp only: if_False simp_thms)
      show ?thesis
      proof (cases "p div ?sz = q0")
        case here: True
        then have "q0 \<le> p div ?sz \<and> p div ?sz < nb" using q by simp
        moreover have "cval ?c1 p = pass_fl h (cval c) p"
          using blk(2)[of p] here by (simp only: if_True simp_thms)
        ultimately show ?thesis
          unfolding v1 by (simp only: if_True simp_thms)
      next
        case there: False
        with False have "\<not> (q0 \<le> p div ?sz \<and> p div ?sz < nb)" by auto
        moreover have "cval ?c1 p = cval c p"
          using blk(2)[of p] there by (simp only: if_False simp_thms)
        ultimately show ?thesis
          unfolding v1 by (simp only: if_False simp_thms)
      qed
    qed
  qed
qed

subsection \<open>Bit reversal\<close>

lemma log2_power: "log 2 (real ((2::nat) ^ m)) = real m"
  by (simp add: log_nat_power)

lemma bitrev_acc:
  "bitrev k x acc = acc * 2 ^ k + bitrev k x 0"
proof (induction k arbitrary: x acc)
  case 0
  then show ?case by simp
next
  case (Suc k)
  have "bitrev (Suc k) x acc = (2 * acc + x mod 2) * 2 ^ k + bitrev k (x div 2) 0"
    using Suc.IH[of "x div 2" "2 * acc + x mod 2"] by simp
  moreover have "bitrev (Suc k) x 0 = (x mod 2) * 2 ^ k + bitrev k (x div 2) 0"
    using Suc.IH[of "x div 2" "x mod 2"] by simp
  ultimately show ?case
    by (simp add: algebra_simps)
qed

lemma bitrev_Suc:
  "bitrev (Suc k) x 0 = (x mod 2) * 2 ^ k + bitrev k (x div 2) 0"
  using bitrev_acc[of k "x div 2" "x mod 2"] by simp

lemma bitrev_even:
  "bitrev (Suc k) (2 * q) 0 = bitrev k q 0"
  by (simp add: bitrev_Suc del: bitrev.simps)

lemma bitrev_odd:
  "bitrev (Suc k) (2 * q + 1) 0 = 2 ^ k + bitrev k q 0"
  by (simp add: bitrev_Suc del: bitrev.simps)

lemma bitrev_less: "bitrev k x 0 < 2 ^ k"
proof (induction k arbitrary: x)
  case 0
  then show ?case by simp
next
  case (Suc k)
  have "x mod 2 = 0 \<or> x mod 2 = 1" by arith
  with Suc[of "x div 2"] show ?case
    by (auto simp: bitrev_Suc simp del: bitrev.simps)
qed

text \<open>
  On at most 31 bits the 32-bit operators of \<open>reverseBits\<close> do not wrap: the loop computes
  the bit reversal.
\<close>

lemma int32_self: "x < 2 ^ 31 \<Longrightarrow> signed_take_bit 31 (int x) = int x"
  by (rule signed_take_bit_int_eq_self) simp_all

lemma or_low_bit: "(2 * int a) OR (int x mod 2) = 2 * int a + int x mod 2"
proof -
  have "int x mod 2 = 0 \<or> int x mod 2 = 1" by presburger
  then show ?thesis
    by (auto simp: or_one_eq)
qed

lemma reverseBits_loop_bitrev:
  assumes "j + k \<le> 31" "x < 2 ^ 31" "acc < 2 ^ j"
  shows "reverseBits_loop k (int x) (int acc) = int (bitrev k x acc)"
  using assms
proof (induction k arbitrary: x acc j)
  case 0
  then show ?case by simp
next
  case (Suc k)
  have j30: "j \<le> 30" using Suc.prems(1) by simp
  have "(2::nat) ^ j \<le> 2 ^ 30"
    using j30 by (intro power_increasing) simp_all
  with Suc.prems(3) have acc30: "acc < 2 ^ 30" by linarith
  then have acc31: "acc < 2 ^ 31" "2 * acc < 2 ^ 31" by simp_all
  have x2: "x div 2 < 2 ^ 31" using Suc.prems(2) by simp
  have acc': "2 * acc + x mod 2 < 2 ^ Suc j"
    using Suc.prems(3) by simp
  have jk: "Suc j + k \<le> 31" using Suc.prems(1) by simp
  have d: "drop_bit 1 (int x) = int (x div 2)"
    by (simp add: drop_bit_eq_div)
  have p: "push_bit 1 (int acc) = int (2 * acc)"
    by (simp add: push_bit_eq_mult)
  have a: "int x AND 1 = int x mod 2"
    by (simp add: and_one_eq)
  note s1 = int32_self[OF Suc.prems(2)] and s2 = int32_self[OF acc31(1)]
    and s3 = int32_self[OF acc31(2)]
  have "reverseBits_loop (Suc k) (int x) (int acc)
      = reverseBits_loop k (int (x div 2)) (int (2 * acc) OR (int x mod 2))"
    by (simp only: reverseBits_loop.simps s1 s2 p s3 d a)
  also have "int (2 * acc) OR (int x mod 2) = int (2 * acc + x mod 2)"
    using or_low_bit[of acc x] by (simp add: zmod_int)
  also have "reverseBits_loop k (int (x div 2)) (int (2 * acc + x mod 2))
      = int (bitrev k (x div 2) (2 * acc + x mod 2))"
    by (rule Suc.IH[OF jk x2 acc'])
  finally show ?case by simp
qed

lemma reverseBits_power:
  assumes "m \<le> 31" "i < 2 ^ m"
  shows "reverseBits i (log 2 (real ((2::nat) ^ m))) = int (bitrev m i 0)"
proof -
  have "(2::nat) ^ m \<le> 2 ^ 31"
    using assms(1) by (intro power_increasing) simp_all
  with assms(2) have i: "i < 2 ^ 31" by linarith
  have "reverseBits_loop m (int i) (int 0) = int (bitrev m i 0)"
    by (rule reverseBits_loop_bitrev[of 0]) (use assms i in simp_all)
  then show ?thesis
    by (simp add: reverseBits_def log2_power)
qed

subsection \<open>Splitting a transform into its even and odd halves\<close>

lemma sum_even_odd:
  fixes f :: "nat \<Rightarrow> complex"
  shows "(\<Sum>j<2 * h. f j) = (\<Sum>j<h. f (2 * j)) + (\<Sum>j<h. f (2 * j + 1))"
  by (induction h) (simp_all add: algebra_simps)

lemma cis_period: "cis (a - 2 * pi * real j) = cis a"
proof -
  have c: "cos (2 * pi * real j) = 1" and s: "sin (2 * pi * real j) = 0"
    using cos_2npi[of j] sin_2npi[of j] by (simp_all add: mult_ac)
  have "cis (a - 2 * pi * real j) = cis a * cis (- (2 * pi * real j))"
    by (simp add: cis_mult)
  also have "cis (- (2 * pi * real j)) = 1"
    by (simp add: complex_eq_iff c s)
  finally show ?thesis by simp
qed

text \<open>The transform of \<open>2 * h\<close> values from the transforms of the even and the odd ones.\<close>

lemma dft_split_low:
  assumes "0 < h"
  shows "dft (2 * h) y t
       = dft h (\<lambda>j. y (2 * j)) t + cis (- 2 * pi / real (2 * h) * real t) * dft h (\<lambda>j. y (2 * j + 1)) t"
proof -
  have e: "cis (- 2 * pi * real (2 * j) * real t / real (2 * h))
         = cis (- 2 * pi * real j * real t / real h)" for j
    using assms by (simp add: field_simps)
  have o: "cis (- 2 * pi * real (2 * j + 1) * real t / real (2 * h))
         = cis (- 2 * pi / real (2 * h) * real t) * cis (- 2 * pi * real j * real t / real h)" for j
  proof -
    have "- 2 * pi * real (2 * j + 1) * real t / real (2 * h)
        = - 2 * pi / real (2 * h) * real t + - 2 * pi * real j * real t / real h"
      using assms by (simp add: field_simps)
    then show ?thesis by (simp only: cis_mult)
  qed
  show ?thesis
    unfolding dft_def sum_even_odd e o
    by (simp add: sum_distrib_left mult_ac)
qed

lemma dft_split_high:
  assumes "0 < h"
  shows "dft (2 * h) y (t + h)
       = dft h (\<lambda>j. y (2 * j)) t - cis (- 2 * pi / real (2 * h) * real t) * dft h (\<lambda>j. y (2 * j + 1)) t"
proof -
  have e: "cis (- 2 * pi * real (2 * j) * real (t + h) / real (2 * h))
         = cis (- 2 * pi * real j * real t / real h)" for j
  proof -
    have "- 2 * pi * real (2 * j) * real (t + h) / real (2 * h)
        = - 2 * pi * real j * real t / real h - 2 * pi * real j"
      using assms by (simp add: field_simps)
    then show ?thesis by (simp only: cis_period)
  qed
  have o: "cis (- 2 * pi * real (2 * j + 1) * real (t + h) / real (2 * h))
         = - (cis (- 2 * pi / real (2 * h) * real t) * cis (- 2 * pi * real j * real t / real h))" for j
  proof -
    have "- 2 * pi * real (2 * j + 1) * real (t + h) / real (2 * h)
        = (- 2 * pi / real (2 * h) * real t + - 2 * pi * real j * real t / real h + - pi)
          - 2 * pi * real j"
      using assms by (simp add: field_simps)
    then have "cis (- 2 * pi * real (2 * j + 1) * real (t + h) / real (2 * h))
        = cis (- 2 * pi / real (2 * h) * real t + - 2 * pi * real j * real t / real h + - pi)"
      by (simp only: cis_period)
    also have "\<dots> = cis (- 2 * pi / real (2 * h) * real t) * cis (- 2 * pi * real j * real t / real h)
        * cis (- pi)"
      by (simp only: cis_mult)
    also have "cis (- pi) = - 1"
      by (simp add: complex_eq_iff)
    finally show ?thesis by simp
  qed
  show ?thesis
    unfolding dft_def sum_even_odd e o
    by (simp add: sum_distrib_left sum_negf mult_ac)
qed

lemma dft_bound:
  assumes "\<And>j. \<bar>x j\<bar> \<le> A"
  shows "cmod (dft n x k) \<le> real n * A"
proof -
  have "cmod (dft n x k) \<le> (\<Sum>j<n. cmod (of_real (x j) * cis (- 2 * pi * real j * real k / real n)))"
    unfolding dft_def by (rule norm_sum)
  also have "\<dots> = (\<Sum>j<n. \<bar>x j\<bar>)"
    by (simp add: norm_mult)
  also have "\<dots> \<le> (\<Sum>j<n. A)"
    by (intro sum_mono assms)
  finally show ?thesis by simp
qed

subsection \<open>From one exact stage to the next\<close>

lemma stage_dft_block:
  assumes "t < 2 ^ l"
  shows "stage_dft m x l (q * 2 ^ l + t)
       = dft (2 ^ l) (\<lambda>j. x (bitrev (m - l) q 0 + j * 2 ^ (m - l))) t"
  using div_mod_block[OF assms, of q] by (simp add: stage_dft_def)

lemma stage_dft_step:
  assumes l: "l < m" and p: "p < 2 ^ m"
  shows "stage_dft m x (Suc l) p = pass_step (2 ^ l) (stage_dft m x l) p"
proof -
  define k where "k = m - Suc l"
  define h :: nat where "h = 2 ^ l"
  define q where "q = p div (2 * h)"
  define t where "t = p mod (2 * h)"
  define rv where "rv = bitrev k q 0"
  define y where "y = (\<lambda>j. x (rv + j * 2 ^ k))"
  have ml: "m - l = Suc k" using l by (simp add: k_def)
  have h: "0 < h" by (simp add: h_def)
  have t2: "t < 2 * h" using h by (simp add: t_def)
  have pq: "p = q * (2 * h) + t"
    unfolding q_def t_def by (rule div_mult_mod_eq[symmetric])
  have even: "stage_dft m x l ((2 * q) * h + u) = dft h (\<lambda>j. y (2 * j)) u" if "u < h" for u
  proof -
    have "stage_dft m x l ((2 * q) * 2 ^ l + u)
        = dft (2 ^ l) (\<lambda>j. x (bitrev (m - l) (2 * q) 0 + j * 2 ^ (m - l))) u"
      using that by (intro stage_dft_block) (simp add: h_def)
    moreover have "bitrev (m - l) (2 * q) 0 + j * 2 ^ (m - l) = rv + 2 * j * 2 ^ k" for j
      unfolding ml bitrev_even rv_def by simp
    ultimately show ?thesis
      by (simp add: h_def y_def)
  qed
  have odd: "stage_dft m x l ((2 * q + 1) * h + u) = dft h (\<lambda>j. y (2 * j + 1)) u" if "u < h" for u
  proof -
    have "stage_dft m x l ((2 * q + 1) * 2 ^ l + u)
        = dft (2 ^ l) (\<lambda>j. x (bitrev (m - l) (2 * q + 1) 0 + j * 2 ^ (m - l))) u"
      using that by (intro stage_dft_block) (simp add: h_def)
    moreover have "bitrev (m - l) (2 * q + 1) 0 + j * 2 ^ (m - l)
        = rv + (2 * j + 1) * 2 ^ k" for j
      unfolding ml bitrev_odd rv_def by (simp add: algebra_simps)
    ultimately show ?thesis
      by (simp add: h_def y_def)
  qed
  have new: "stage_dft m x (Suc l) p = dft (2 * h) y t"
    by (simp add: stage_dft_def h_def y_def rv_def k_def q_def t_def)
  have pass: "pass_step h (stage_dft m x l) p =
      (if t < h then stage_dft m x l p + twiddle h t * stage_dft m x l (p + h)
       else stage_dft m x l (p - h) - twiddle h (t - h) * stage_dft m x l p)"
    by (simp add: pass_step_def t_def)
  have "pass_step h (stage_dft m x l) p = dft (2 * h) y t"
  proof (cases "t < h")
    case True
    have pe: "p = (2 * q) * h + t" and po: "p + h = (2 * q + 1) * h + t"
      using pq by simp_all
    have e: "stage_dft m x l p = dft h (\<lambda>j. y (2 * j)) t"
      using even[OF True] by (simp only: pe[symmetric])
    have o: "stage_dft m x l (p + h) = dft h (\<lambda>j. y (2 * j + 1)) t"
      using odd[OF True] by (simp only: po[symmetric])
    have "pass_step h (stage_dft m x l) p
        = stage_dft m x l p + twiddle h t * stage_dft m x l (p + h)"
      unfolding pass using True by (simp only: if_True)
    then show ?thesis
      unfolding e o dft_split_low[OF h] twiddle_def .
  next
    case False
    define u where "u = t - h"
    have u: "u < h" "t = u + h" using False t2 by (simp_all add: u_def)
    have pe: "p - h = (2 * q) * h + u" and po: "p = (2 * q + 1) * h + u"
      using u pq by simp_all
    have e: "stage_dft m x l (p - h) = dft h (\<lambda>j. y (2 * j)) u"
      using even[OF u(1)] by (simp only: pe[symmetric])
    have o: "stage_dft m x l p = dft h (\<lambda>j. y (2 * j + 1)) u"
      using odd[OF u(1)] by (simp only: po[symmetric])
    have "pass_step h (stage_dft m x l) p
        = stage_dft m x l (p - h) - twiddle h (t - h) * stage_dft m x l p"
      unfolding pass using False by (simp only: if_False)
    also have "t - h = u" by (simp add: u_def)
    finally have "pass_step h (stage_dft m x l) p = dft (2 * h) y (u + h)"
      unfolding e o dft_split_high[OF h] twiddle_def .
    then show ?thesis
      by (simp only: u(2))
  qed
  with new show ?thesis
    by (simp add: h_def)
qed

subsection \<open>The bit-reversal permutation\<close>

lemma all_finite_replicate: "all_finite (replicate (n * 2) (Fin 0)) n"
  by (simp add: all_finite_def list_all_length)

lemma fround32_bound:
  assumes "\<bar>x\<bar> \<le> 2 ^ 126"
  shows "\<bar>fround32 x\<bar> < 2 ^ 128"
proof -
  have "\<bar>fround32 x - x\<bar> \<le> 2 ^ 126 * eps32 + tiny32"
    by (rule fround32_err_eps[OF assms])
  moreover have "2 ^ 126 * eps32 + tiny32 \<le> (2 ^ 126 :: real)"
    by (simp add: eps32_def tiny32_def)
  ultimately have "\<bar>fround32 x\<bar> \<le> 2 ^ 126 + 2 ^ 126"
    using assms by linarith
  then show ?thesis by simp
qed

lemma fold_set_pairs:
  assumes "k \<le> n" "all_finite init n" "\<And>i. i < k \<Longrightarrow> \<bar>fr i\<bar> \<le> 2 ^ 126"
  shows "all_finite (fold (\<lambda>i c. ta_set (ta_set c (i * 2) (Fin (fr i))) (i * 2 + 1) (Fin 0))
                          [0..<k] init) n
       \<and> (\<forall>q < k. cval (fold (\<lambda>i c. ta_set (ta_set c (i * 2) (Fin (fr i))) (i * 2 + 1) (Fin 0))
                                [0..<k] init) q = Complex (fround32 (fr q)) 0)"
  using assms(1,3)
proof (induction k)
  case 0
  then show ?case using assms(2) by simp
next
  case (Suc k)
  let ?step = "\<lambda>i c. ta_set (ta_set c (i * 2) (Fin (fr i))) (i * 2 + 1) (Fin 0)"
  let ?ck = "fold ?step [0..<k] init"
  from Suc have fin: "all_finite ?ck n"
    and vals: "\<forall>q < k. cval ?ck q = Complex (fround32 (fr q)) 0"
    by simp_all
  have len: "length ?ck = n * 2" using fin by (rule all_finite_length)
  have idx: "k * 2 + 1 < length ?ck" using Suc.prems len by simp
  have st: "store32 (Fin (fr k)) = Fin (fround32 (fr k))"
    by (intro store32_Fin fround32_bound Suc.prems) simp
  have step: "fold ?step [0..<Suc k] init = ?ck[k * 2 := Fin (fround32 (fr k)), k * 2 + 1 := Fin 0]"
    using idx by (simp add: ta_set_def st del: store32.simps)
  show ?case
    unfolding step
  proof (intro conjI allI impI)
    show "all_finite (?ck[k * 2 := Fin (fround32 (fr k)), k * 2 + 1 := Fin 0]) n"
      by (intro all_finite_update fin)
    fix q assume "q < Suc k"
    then show "cval (?ck[k * 2 := Fin (fround32 (fr k)), k * 2 + 1 := Fin 0]) q
        = Complex (fround32 (fr q)) 0"
      unfolding cval_update_pair[OF idx] using vals by (cases "q = k") simp_all
  qed
qed

lemma bitReverse_cval:
  fixes xs :: "real list"
  assumes len: "length xs = 2 ^ m" and m: "m \<le> 31"
    and bound: "\<And>j. j < 2 ^ m \<Longrightarrow> \<bar>xs ! j\<bar> \<le> 2 ^ 126"
  shows "all_finite (bitReverse (map Fin xs)) (2 ^ m)"
    and "\<And>q. q < 2 ^ m \<Longrightarrow>
           cval (bitReverse (map Fin xs)) q = Complex (fround32 (xs ! bitrev m q 0)) 0"
proof -
  let ?step = "\<lambda>i c. ta_set (ta_set c (i * 2) (Fin (xs ! bitrev m i 0))) (i * 2 + 1) (Fin 0)"
  have get: "ta_get_int (map Fin xs) (reverseBits i (log 2 (real (2 ^ m :: nat))))
      = Fin (xs ! bitrev m i 0)" if "i < 2 ^ m" for i
    using bitrev_less[of m i] len reverseBits_power[OF m that]
    by (simp add: ta_get_int_def ta_get_def)
  have "bitReverse (map Fin xs)
      = fold (\<lambda>i c. ta_set (ta_set c (i * 2)
                 (ta_get_int (map Fin xs) (reverseBits i (log 2 (real (2 ^ m :: nat))))))
                 (i * 2 + 1) (Fin 0))
          [0..<2 ^ m] (replicate (2 ^ m * 2) (Fin 0))"
    unfolding bitReverse_def Let_def length_map len ..
  also have "\<dots> = fold ?step [0..<2 ^ m] (replicate (2 ^ m * 2) (Fin 0))"
  proof (rule fold_cong)
    fix i assume "i \<in> set [0..<2 ^ m]"
    then have "i < 2 ^ m" by simp
    then show "(\<lambda>c. ta_set (ta_set c (i * 2)
                 (ta_get_int (map Fin xs) (reverseBits i (log 2 (real (2 ^ m :: nat))))))
                 (i * 2 + 1) (Fin 0)) = ?step i"
      by (simp only: get)
  qed (rule refl)+
  finally have br: "bitReverse (map Fin xs)
      = fold ?step [0..<2 ^ m] (replicate (2 ^ m * 2) (Fin 0))" .
  have pairs: "all_finite (fold ?step [0..<2 ^ m] (replicate (2 ^ m * 2) (Fin 0))) (2 ^ m)
      \<and> (\<forall>q < 2 ^ m. cval (fold ?step [0..<2 ^ m] (replicate (2 ^ m * 2) (Fin 0))) q
            = Complex (fround32 (xs ! bitrev m q 0)) 0)"
  proof (rule fold_set_pairs)
    show "\<bar>xs ! bitrev m i 0\<bar> \<le> 2 ^ 126" for i
      by (rule bound) (rule bitrev_less)
  qed (simp_all add: all_finite_replicate)
  show "all_finite (bitReverse (map Fin xs)) (2 ^ m)"
    unfolding br using pairs by (rule conjunct1)
  show "cval (bitReverse (map Fin xs)) q = Complex (fround32 (xs ! bitrev m q 0)) 0"
    if "q < 2 ^ m" for q
    unfolding br using pairs that by blast
qed

subsection \<open>The error of one pass\<close>

lemma block_neighbour:
  fixes p h nb :: nat
  assumes h: "0 < h" and p: "p < nb * (2 * h)"
  shows "p mod (2 * h) < h \<Longrightarrow> p + h < nb * (2 * h)"
    and "\<not> p mod (2 * h) < h \<Longrightarrow> h \<le> p \<and> p - h < nb * (2 * h)"
proof -
  have d: "p div (2 * h) < nb"
    using p h by (simp add: less_mult_imp_div_less)
  show "p + h < nb * (2 * h)" if "p mod (2 * h) < h"
  proof -
    have "p + h = (p + h) div (2 * h) * (2 * h) + (p + h) mod (2 * h)"
      by (rule div_mult_mod_eq[symmetric])
    also have "\<dots> = p div (2 * h) * (2 * h) + (p mod (2 * h) + h)"
      by (simp only: half_block_low[OF h that])
    also have "\<dots> < p div (2 * h) * (2 * h) + 2 * h"
      using that by simp
    also have "\<dots> = Suc (p div (2 * h)) * (2 * h)"
      by simp
    also have "\<dots> \<le> nb * (2 * h)"
      using d by (intro mult_le_mono1) simp
    finally show ?thesis .
  qed
  show "h \<le> p \<and> p - h < nb * (2 * h)" if "\<not> p mod (2 * h) < h"
  proof -
    from that have "h \<le> p mod (2 * h)" by simp
    from half_block_high(3)[OF h this] p show ?thesis by simp
  qed
qed

lemma pass_close:
  assumes h: "0 < h" and p: "p < nb * (2 * h)"
    and close: "\<And>k. k < nb * (2 * h) \<Longrightarrow> cmod (f k - Y k) \<le> E"
    and bound: "\<And>k. k < nb * (2 * h) \<Longrightarrow> cmod (f k) \<le> M"
  shows "cmod (pass_fl h f p - pass_step h f p) \<le> M * (5 * eps32) + 2 * tiny32"
    and "cmod (pass_step h f p - pass_step h Y p) \<le> 2 * E"
    and "cmod (pass_step h f p) \<le> 2 * M"
proof -
  note nb = block_neighbour[OF h p]
  have th: "p mod (2 * h) - h < h" if "\<not> p mod (2 * h) < h"
  proof -
    have "p mod (2 * h) < 2 * h" using h by simp
    then show ?thesis using that by simp
  qed
  show "cmod (pass_fl h f p - pass_step h f p) \<le> M * (5 * eps32) + 2 * tiny32"
  proof (cases "p mod (2 * h) < h")
    case True
    from butterfly_err(1)[OF h True bound[OF p] bound[OF nb(1)[OF True]]] True
    show ?thesis by (simp add: pass_fl_def pass_step_def)
  next
    case False
    from nb(2)[OF False] have ph: "p - h < nb * (2 * h)" by simp
    from butterfly_err(2)[OF h th[OF False] bound[OF ph] bound[OF p]] False
    show ?thesis by (simp add: pass_fl_def pass_step_def)
  qed
  show "cmod (pass_step h f p - pass_step h Y p) \<le> 2 * E"
  proof (cases "p mod (2 * h) < h")
    case True
    let ?w = "twiddle h (p mod (2 * h))"
    have "pass_step h f p - pass_step h Y p = (f p - Y p) + ?w * (f (p + h) - Y (p + h))"
      using True by (simp add: pass_step_def algebra_simps)
    then have "cmod (pass_step h f p - pass_step h Y p)
        \<le> cmod (f p - Y p) + cmod (?w * (f (p + h) - Y (p + h)))"
      by (simp only: norm_triangle_ineq)
    with close[OF p] close[OF nb(1)[OF True]] show ?thesis
      by (simp add: norm_mult)
  next
    case False
    let ?w = "twiddle h (p mod (2 * h) - h)"
    from nb(2)[OF False] have ph: "p - h < nb * (2 * h)" by simp
    have "pass_step h f p - pass_step h Y p = (f (p - h) - Y (p - h)) - ?w * (f p - Y p)"
      using False by (simp add: pass_step_def algebra_simps)
    then have "cmod (pass_step h f p - pass_step h Y p)
        \<le> cmod (f (p - h) - Y (p - h)) + cmod (?w * (f p - Y p))"
      by (simp only: norm_triangle_ineq4)
    with close[OF p] close[OF ph] show ?thesis
      by (simp add: norm_mult)
  qed
  show "cmod (pass_step h f p) \<le> 2 * M"
  proof (cases "p mod (2 * h) < h")
    case True
    have "cmod (pass_step h f p) \<le> cmod (f p) + cmod (twiddle h (p mod (2 * h)) * f (p + h))"
      using True by (simp add: pass_step_def norm_triangle_ineq)
    with bound[OF p] bound[OF nb(1)[OF True]] show ?thesis
      by (simp add: norm_mult)
  next
    case False
    from nb(2)[OF False] have ph: "p - h < nb * (2 * h)" by simp
    have "cmod (pass_step h f p)
        \<le> cmod (f (p - h)) + cmod (twiddle h (p mod (2 * h) - h) * f p)"
      using False by (simp add: pass_step_def norm_triangle_ineq4)
    with bound[OF p] bound[OF ph] show ?thesis
      by (simp add: norm_mult)
  qed
qed

subsection \<open>The growth of the error\<close>

lemma stage_err_Suc: "stage_err (Suc l) = 2 * stage_err l + 2 ^ l * (8 * eps32)"
  by (simp add: stage_err_def algebra_simps)

lemma stage_err_small:
  assumes "l \<le> 31"
  shows "stage_err l \<le> 2 ^ l * (1 / 5)" "0 \<le> stage_err l"
proof -
  have "real l + 1 \<le> 32" using assms by simp
  then have "(real l + 1) * (4 * eps32) \<le> 32 * (4 * eps32)"
    using eps_facts by (intro mult_right_mono) simp_all
  also have "\<dots> \<le> 1 / 5"
    by (simp add: eps32_def)
  finally have "2 ^ l * ((real l + 1) * (4 * eps32)) \<le> 2 ^ l * (1 / 5)"
    by (intro mult_left_mono) simp_all
  then show "stage_err l \<le> 2 ^ l * (1 / 5)"
    by (simp add: stage_err_def mult.assoc)
  show "0 \<le> stage_err l"
    using eps_facts by (simp add: stage_err_def)
qed

lemma err_step:
  assumes l: "l \<le> 31" and A: "1 \<le> A"
  shows "2 * (stage_err l * A) + ((2 ^ l * A + stage_err l * A) * (5 * eps32) + 2 * tiny32)
           \<le> stage_err (Suc l) * A"
proof -
  define Q where "Q = 2 ^ l * A"
  have Q: "1 \<le> Q"
  proof -
    have "(1::real) * 1 \<le> 2 ^ l * A"
      using A by (intro mult_mono) simp_all
    then show ?thesis by (simp add: Q_def)
  qed
  have "stage_err l * A \<le> 2 ^ l * (1 / 5) * A"
    using stage_err_small(1)[OF l] A by (intro mult_right_mono) simp_all
  then have s: "stage_err l * A \<le> Q * (1 / 5)"
    by (simp add: Q_def)
  have "(Q + stage_err l * A) * (5 * eps32) \<le> (Q + Q * (1 / 5)) * (5 * eps32)"
    using s eps_facts by (intro mult_right_mono) simp_all
  also have "\<dots> = Q * (6 * eps32)"
    by (simp add: algebra_simps)
  finally have a: "(Q + stage_err l * A) * (5 * eps32) \<le> Q * (6 * eps32)" .
  have "2 * tiny32 \<le> 1 * (2 * eps32)"
    by (simp add: tiny32_def eps32_def)
  also have "\<dots> \<le> Q * (2 * eps32)"
    using Q eps_facts by (intro mult_right_mono) simp_all
  finally have "2 * tiny32 \<le> Q * (2 * eps32)" .
  with a have "(Q + stage_err l * A) * (5 * eps32) + 2 * tiny32 \<le> Q * (8 * eps32)"
    by (simp add: algebra_simps)
  then show ?thesis
    unfolding stage_err_Suc Q_def by (simp add: algebra_simps)
qed

subsection \<open>All passes\<close>

lemma stage_dft_bound:
  assumes "\<And>j. \<bar>x j\<bar> \<le> A"
  shows "cmod (stage_dft m x l p) \<le> 2 ^ l * A"
  using dft_bound[of "\<lambda>j. x (bitrev (m - l) (p div 2 ^ l) 0 + j * 2 ^ (m - l))" A "2 ^ l" "p mod 2 ^ l"]
    assms by (simp add: stage_dft_def)

lemma pass_safe:
  assumes l: "l \<le> 31" and A: "1 \<le> A" "A \<le> 2 ^ 64"
    and M: "M \<le> 2 ^ l * A + stage_err l * A"
    and f: "cmod (z - s) \<le> M * (5 * eps32) + 2 * tiny32" "cmod s \<le> 2 * M"
  shows "cmod z < 2 ^ 128"
proof -
  have "(2::real) ^ l \<le> 2 ^ 31"
    using l by (intro power_increasing) simp_all
  then have "2 ^ l * A \<le> 2 ^ 31 * 2 ^ 64"
    using A by (intro mult_mono) simp_all
  then have Q: "2 ^ l * A \<le> 2 ^ 95"
    by simp
  have "stage_err l * A \<le> 2 ^ l * (1 / 5) * A"
    using stage_err_small(1)[OF l] A by (intro mult_right_mono) simp_all
  with Q M have M96: "M \<le> 2 ^ 96"
    by simp
  have M0: "0 \<le> M"
    using f(2) norm_ge_zero[of s] by linarith
  have "M * (5 * eps32) \<le> M * 1"
    using M0 by (intro mult_left_mono) (simp_all add: eps32_def)
  moreover have "2 * tiny32 \<le> 1"
    by (simp add: tiny32_def)
  moreover have "cmod z \<le> cmod s + cmod (z - s)"
    using norm_triangle_ineq[of s "z - s"] by simp
  ultimately have "cmod z \<le> 3 * M + 1"
    using f by linarith
  also have "\<dots> \<le> 3 * 2 ^ 96 + 1"
    using M96 by simp
  also have "\<dots> < (2::real) ^ 128"
    by simp
  finally show ?thesis .
qed

lemma fftPasses_close:
  assumes m: "m \<le> 31" and x: "\<And>j. \<bar>x j\<bar> \<le> A" and A: "1 \<le> A" "A \<le> 2 ^ 64"
    and "l \<le> m" "all_finite c (2 ^ m)"
    and "\<And>p. p < 2 ^ m \<Longrightarrow> cmod (cval c p - stage_dft m x l p) \<le> stage_err l * A"
  shows "all_finite (fftPasses (2 ^ m) (2 ^ Suc l) c) (2 ^ m)
       \<and> (\<forall>p < 2 ^ m. cmod (cval (fftPasses (2 ^ m) (2 ^ Suc l) c) p - stage_dft m x m p)
                          \<le> stage_err m * A)"
  using assms(5-7)
proof (induction "m - l" arbitrary: l c)
  case 0
  then have "l = m" by simp
  then have "fftPasses (2 ^ m) (2 ^ Suc l) c = c"
    by (subst fftPasses.simps) simp
  with 0 \<open>l = m\<close> show ?case by simp
next
  case (Suc d)
  then have l: "l < m" by simp
  then have l31: "l \<le> 31" using m by simp
  define h :: nat where "h = 2 ^ l"
  define nb :: nat where "nb = 2 ^ (m - Suc l)"
  define M where "M = 2 ^ l * A + stage_err l * A"
  have h: "0 < h" by (simp add: h_def)
  have sz: "(2::nat) ^ Suc l = 2 * h" by (simp add: h_def)
  have n: "(2::nat) ^ m = nb * (2 * h)"
  proof -
    have "m = (m - Suc l) + Suc l" using l by simp
    then have "(2::nat) ^ m = 2 ^ (m - Suc l) * 2 ^ Suc l"
      by (metis power_add)
    then show ?thesis by (simp add: nb_def h_def)
  qed
  let ?c1 = "fftBlocks (2 * h) (nb * (2 * h)) (0 * (2 * h)) c"
  have fin: "all_finite c (nb * (2 * h))" using Suc.prems(2) by (simp only: n)
  have close: "cmod (cval c k - stage_dft m x l k) \<le> stage_err l * A" if "k < nb * (2 * h)" for k
    using Suc.prems(3)[of k] that by (simp only: n)
  have bound: "cmod (cval c k) \<le> M" if "k < nb * (2 * h)" for k
  proof -
    have "cmod (cval c k) \<le> cmod (stage_dft m x l k) + cmod (cval c k - stage_dft m x l k)"
      using norm_triangle_ineq[of "stage_dft m x l k" "cval c k - stage_dft m x l k"] by simp
    with stage_dft_bound[of x A m l k, OF x] close[OF that] show ?thesis
      by (simp add: M_def)
  qed
  have in_range: "p < nb * (2 * h)" if "p div (2 * h) < nb" for p
  proof -
    have "p = p div (2 * h) * (2 * h) + p mod (2 * h)"
      by (rule div_mult_mod_eq[symmetric])
    also have "\<dots> < p div (2 * h) * (2 * h) + 2 * h"
      using h by simp
    also have "\<dots> = Suc (p div (2 * h)) * (2 * h)"
      by simp
    also have "\<dots> \<le> nb * (2 * h)"
      using that by (intro mult_le_mono1) simp
    finally show ?thesis .
  qed
  have pc1: "cmod (pass_fl h (cval c) p - pass_step h (cval c) p) \<le> M * (5 * eps32) + 2 * tiny32"
    if "p < nb * (2 * h)" for p
    using pass_close(1)[of h p nb "cval c" "stage_dft m x l" "stage_err l * A" M]
      h that close bound by blast
  have pc2: "cmod (pass_step h (cval c) p - pass_step h (stage_dft m x l) p)
      \<le> 2 * (stage_err l * A)" if "p < nb * (2 * h)" for p
    using pass_close(2)[of h p nb "cval c" "stage_dft m x l" "stage_err l * A" M]
      h that close bound by blast
  have pc3: "cmod (pass_step h (cval c) p) \<le> 2 * M" if "p < nb * (2 * h)" for p
    using pass_close(3)[of h p nb "cval c" "stage_dft m x l" "stage_err l * A" M]
      h that close bound by blast
  have safe: "cmod (pass_fl h (cval c) p) < 2 ^ 128" if "0 \<le> p div (2 * h)" "p div (2 * h) < nb" for p
  proof -
    note r = in_range[OF that(2)]
    show ?thesis
      by (rule pass_safe[OF l31 A _ pc1[OF r] pc3[OF r]]) (simp add: M_def)
  qed
  note pass = fftBlocks_cval[OF h fin le0 safe]
  have fin1: "all_finite ?c1 (2 ^ m)"
    unfolding n using pass by (rule conjunct1)
  have close1: "cmod (cval ?c1 p - stage_dft m x (Suc l) p) \<le> stage_err (Suc l) * A"
    if p: "p < 2 ^ m" for p
  proof -
    have pn: "p < nb * (2 * h)" using p by (simp only: n)
    then have "p div (2 * h) < nb"
      using h by (simp add: less_mult_imp_div_less)
    moreover have "cval ?c1 p = (if 0 \<le> p div (2 * h) \<and> p div (2 * h) < nb
        then pass_fl h (cval c) p else cval c p)"
      using pass by blast
    ultimately have v: "cval ?c1 p = pass_fl h (cval c) p"
      by simp
    note pc = pc1[OF pn] pc2[OF pn]
    have "cval ?c1 p - stage_dft m x (Suc l) p
        = (pass_fl h (cval c) p - pass_step h (cval c) p)
          + (pass_step h (cval c) p - pass_step h (stage_dft m x l) p)"
      unfolding v stage_dft_step[OF l p] by (simp add: h_def)
    then have "cmod (cval ?c1 p - stage_dft m x (Suc l) p)
        \<le> cmod (pass_fl h (cval c) p - pass_step h (cval c) p)
          + cmod (pass_step h (cval c) p - pass_step h (stage_dft m x l) p)"
      by (simp only: norm_triangle_ineq)
    with pc have "cmod (cval ?c1 p - stage_dft m x (Suc l) p)
        \<le> 2 * (stage_err l * A) + (M * (5 * eps32) + 2 * tiny32)"
      by linarith
    with err_step[OF l31 A(1)] show ?thesis
      unfolding M_def by linarith
  qed
  have "d = m - Suc l" using Suc.hyps(2) by simp
  moreover have "Suc l \<le> m" using l by simp
  ultimately have IH: "all_finite (fftPasses (2 ^ m) (2 ^ Suc (Suc l)) ?c1) (2 ^ m)
       \<and> (\<forall>p < 2 ^ m. cmod (cval (fftPasses (2 ^ m) (2 ^ Suc (Suc l)) ?c1) p - stage_dft m x m p)
                          \<le> stage_err m * A)"
    using Suc.hyps(1)[of "Suc l" ?c1] fin1 close1 by blast
  have "Suc l \<le> m" using l by simp
  then have "(2::nat) ^ Suc l \<le> 2 ^ m"
    by (rule power_increasing) simp
  moreover have "0 < (2::nat) ^ Suc l" by simp
  ultimately have le: "(2::nat) ^ Suc l \<le> 2 ^ m \<and> 0 < (2::nat) ^ Suc l" ..
  have "fftPasses (2 ^ m) (2 ^ Suc l) c =
      (if 2 ^ Suc l \<le> (2::nat) ^ m \<and> 0 < (2::nat) ^ Suc l
       then fftPasses (2 ^ m) (2 ^ Suc l * 2) (fftBlocks (2 ^ Suc l) (2 ^ m) 0 c)
       else c)"
    by (rule fftPasses.simps)
  then have "fftPasses (2 ^ m) (2 ^ Suc l) c
      = fftPasses (2 ^ m) (2 ^ Suc l * 2) (fftBlocks (2 ^ Suc l) (2 ^ m) 0 c)"
    using le by (simp only: if_True simp_thms)
  also have "(2::nat) ^ Suc l * 2 = 2 ^ Suc (Suc l)" by simp
  also have "fftBlocks (2 ^ Suc l) (2 ^ m) 0 c = ?c1"
    by (simp only: sz n mult_0)
  finally show ?case
    using IH by simp
qed

subsection \<open>The transform\<close>

lemma dft_one: "dft (Suc 0) x t = of_real (x 0)"
  by (simp add: dft_def)

lemma performFFT_close:
  fixes xs :: "real list"
  assumes len: "length xs = 2 ^ m" and m: "m \<le> 31"
    and bound: "\<forall>v \<in> set xs. \<bar>v\<bar> \<le> A" and A: "1 \<le> A" "A \<le> 2 ^ 64"
  shows "all_finite (complexValues (performFFT (map Fin xs))) (2 ^ m)"
    and "\<And>k. k < 2 ^ m \<Longrightarrow>
           cmod (cval (complexValues (performFFT (map Fin xs))) k - dft (2 ^ m) (\<lambda>j. xs ! j) k)
             \<le> stage_err m * A"
proof -
  define x where "x = (\<lambda>j. if j < 2 ^ m then xs ! j else 0)"
  have xb: "\<bar>x j\<bar> \<le> A" for j
    using bound len A by (simp add: x_def)
  have b126: "\<bar>xs ! j\<bar> \<le> 2 ^ 126" if "j < 2 ^ m" for j
  proof -
    have "\<bar>xs ! j\<bar> \<le> A" using bound len that by simp
    moreover have "(2::real) ^ 64 \<le> 2 ^ 126" by simp
    ultimately show ?thesis using A by linarith
  qed
  have br: "all_finite (bitReverse (map Fin xs)) (2 ^ m)"
    "\<And>q. q < 2 ^ m \<Longrightarrow>
       cval (bitReverse (map Fin xs)) q = Complex (fround32 (xs ! bitrev m q 0)) 0"
    using bitReverse_cval[of xs m] len m b126 by blast+
  have cv: "complexValues (performFFT (map Fin xs))
      = fftPasses (2 ^ m) (2 ^ Suc 0) (bitReverse (map Fin xs))"
    by (simp add: performFFT_def Let_def len)
  have close0: "cmod (cval (bitReverse (map Fin xs)) p - stage_dft m x 0 p) \<le> stage_err 0 * A"
    if p: "p < 2 ^ m" for p
  proof -
    let ?v = "xs ! bitrev m p 0"
    have r: "bitrev m p 0 < 2 ^ m" by (rule bitrev_less)
    have s: "stage_dft m x 0 p = of_real ?v"
      using r by (simp add: stage_dft_def dft_one x_def)
    have "\<bar>?v\<bar> \<le> A" using bound len r by simp
    from fround32_err_eps[OF this]
    have "\<bar>fround32 ?v - ?v\<bar> \<le> A * eps32 + tiny32" .
    moreover have "tiny32 \<le> 1 * eps32"
      by (simp add: tiny32_def eps32_def)
    moreover have "1 * eps32 \<le> A * eps32"
      using A eps_facts by (intro mult_right_mono) simp_all
    ultimately have e: "\<bar>fround32 ?v - ?v\<bar> \<le> 4 * eps32 * A"
      by (simp add: algebra_simps)
    have "cval (bitReverse (map Fin xs)) p - stage_dft m x 0 p = of_real (fround32 ?v - ?v)"
      unfolding br(2)[OF p] s by (simp add: complex_eq_iff)
    then have "cmod (cval (bitReverse (map Fin xs)) p - stage_dft m x 0 p) = \<bar>fround32 ?v - ?v\<bar>"
      by (simp only: norm_of_real)
    with e show ?thesis
      by (simp add: stage_err_def)
  qed
  have st: "all_finite (fftPasses (2 ^ m) (2 ^ Suc 0) (bitReverse (map Fin xs))) (2 ^ m)
       \<and> (\<forall>p < 2 ^ m. cmod (cval (fftPasses (2 ^ m) (2 ^ Suc 0) (bitReverse (map Fin xs))) p
                            - stage_dft m x m p) \<le> stage_err m * A)"
    using fftPasses_close[of m x A 0 "bitReverse (map Fin xs)"] m xb A br(1) close0 by blast
  show "all_finite (complexValues (performFFT (map Fin xs))) (2 ^ m)"
    unfolding cv using st by (rule conjunct1)
  show "cmod (cval (complexValues (performFFT (map Fin xs))) k - dft (2 ^ m) (\<lambda>j. xs ! j) k)
      \<le> stage_err m * A" if k: "k < 2 ^ m" for k
  proof -
    have "stage_dft m x m k = dft (2 ^ m) x k"
      using k by (simp add: stage_dft_def)
    also have "\<dots> = dft (2 ^ m) (\<lambda>j. xs ! j) k"
      unfolding dft_def by (rule sum.cong) (simp_all add: x_def)
    finally have "stage_dft m x m k = dft (2 ^ m) (\<lambda>j. xs ! j) k" .
    with st k show ?thesis
      unfolding cv by auto
  qed
qed

subsection \<open>Two samples\<close>

lemma powr_minus_nat: "(2::real) powr (- real n) = 1 / 2 ^ n"
  by (simp add: powr_minus_divide powr_realpow)

lemma fl_dyadic_div:
  assumes "\<bar>k\<bar> < 2 ^ 53"
  shows "fl (of_int k / 2 ^ n) = of_int k / 2 ^ n"
  using fl_dyadic[OF assms, of "- int n"] by (simp add: powr_minus_nat)

lemma fround32_dyadic_div:
  assumes "\<bar>k\<bar> < 2 ^ 24" "n \<le> 149"
  shows "fround32 (of_int k / 2 ^ n) = of_int k / 2 ^ n"
  using fround32_dyadic[OF assms(1), of "- int n"] assms(2) by (simp add: powr_minus_nat)

text \<open>
  A positive \<open>x\<close> below \<open>2^24\<close> and not below \<open>2^-126\<close> is rounded to binary32 at the scale
  \<open>2^k\<close> that brings it into \<open>[2^23, 2^24)\<close>.
\<close>

lemma fround32_pos_eval:
  fixes k :: nat
  assumes "2 ^ 23 \<le> x * 2 ^ k" "x * 2 ^ k < 2 ^ 24" "k \<le> 149"
  shows "fround32 x = of_int (round_even (x * 2 ^ k)) / 2 ^ k"
proof -
  have pos: "0 < x"
  proof (rule ccontr)
    assume "\<not> 0 < x"
    then have "x * 2 ^ k \<le> 0"
      by (simp add: mult_nonpos_nonneg)
    with assms(1) show False by simp
  qed
  have k: "(2::real) powr (real_of_int (23 - int k - 23)) = 1 / 2 ^ k"
    by (simp add: powr_minus_divide powr_realpow)
  have "\<lfloor>log 2 \<bar>x\<bar>\<rfloor> = 23 - int k"
  proof (rule floor_log2_eq)
    show "0 < \<bar>x\<bar>" using pos by simp
    have "(2::real) powr (real_of_int (23 - int k)) = 2 ^ 23 / 2 ^ k"
      by (simp add: powr_diff powr_realpow)
    then show "2 powr (real_of_int (23 - int k)) \<le> \<bar>x\<bar>"
      using assms(1) pos by (simp add: divide_le_eq)
    have "(2::real) powr (real_of_int (23 - int k) + 1) = 2 ^ 24 / 2 ^ k"
      by (simp add: powr_diff powr_add powr_realpow)
    then show "\<bar>x\<bar> < 2 powr (real_of_int (23 - int k) + 1)"
      using assms(2) pos by (simp add: less_divide_eq)
  qed
  moreover have "max (23 - int k - 23) (- 149) = 23 - int k - 23"
    using assms(3) by simp
  ultimately have "fround32 x = of_int (round_even (x / 2 powr (real_of_int (23 - int k - 23))))
      * 2 powr (real_of_int (23 - int k - 23))"
    using pos by (simp add: fround32_def Let_def)
  then show ?thesis
    unfolding k by simp
qed

lemma log2_two: "log 2 (real 2) = 1"
  by simp

lemma reverseBits_one:
  "reverseBits 0 1 = 0" "reverseBits (Suc 0) 1 = 1"
  by (simp_all add: reverseBits_def)

lemma bitReverse_two:
  "bitReverse [a0, a1] = [store32 a0, Fin 0, store32 a1, Fin 0]"
proof -
  have len: "length [a0, a1] = 2" by simp
  have two: "[0..<2] = [0, Suc 0]" by (simp add: upt_rec)
  show ?thesis
    unfolding bitReverse_def Let_def len log2_two two
    by (simp add: reverseBits_one ta_set_def ta_get_int_def ta_get_def numeral_eval)
qed

lemma butterfly_two:
  "butterfly 2 0 0 [Fin x, Fin 0, Fin y, Fin 0]
     = [store32 (Fin (fl (x + fl (fl y)))), Fin 0, store32 (Fin (fl (x - fl (fl y)))), Fin 0]"
  by (simp add: butterfly_def Let_def ta_get_def ta_set_def numeral_eval
      add64_def sub64_def mul64_def div64_def Math_cos_def Math_sin_def del: store32.simps)

lemma performFFT_two:
  assumes "store32 (Fin x) = Fin x" "store32 (Fin y) = Fin y"
  shows "complexValues (performFFT [Fin x, Fin y])
     = [store32 (Fin (fl (x + fl (fl y)))), Fin 0, store32 (Fin (fl (x - fl (fl y)))), Fin 0]"
proof -
  have len: "length [Fin x, Fin y] = 2" by simp
  have one: "[0..<2 div 2] = [0]" by simp
  have "fftBlocks 2 2 0 [Fin x, Fin 0, Fin y, Fin 0] = butterfly 2 0 0 [Fin x, Fin 0, Fin y, Fin 0]"
    by (simp add: fftBlocks.simps[of 2 2] one del: store32.simps)
  then have "fftPasses 2 2 [Fin x, Fin 0, Fin y, Fin 0]
      = butterfly 2 0 0 [Fin x, Fin 0, Fin y, Fin 0]"
    by (simp add: fftPasses.simps[of 2] del: store32.simps)
  then show ?thesis
    unfolding performFFT_def Let_def len bitReverse_two assms butterfly_two by simp
qed

lemma half_ulp_sample:
  "store32 (Fin 1) = Fin 1" "store32 (Fin (1 / 2 ^ 24)) = Fin (1 / 2 ^ 24)"
  "fl (1 / 2 ^ 24) = 1 / 2 ^ 24"
  "fl (1 + 1 / 2 ^ 24) = 1 + 1 / 2 ^ 24" "fl (1 - 1 / 2 ^ 24) = 1 - 1 / 2 ^ 24"
  "fround32 (1 + 1 / 2 ^ 24) = 1" "fround32 (1 - 1 / 2 ^ 24) = 1 - 1 / 2 ^ 24"
proof -
  show "store32 (Fin 1) = Fin 1"
    using fround32_of_int[of 1] by simp
  show "store32 (Fin (1 / 2 ^ 24)) = Fin (1 / 2 ^ 24)"
    using fround32_dyadic_div[of 1 24] by simp
  show "fl (1 / 2 ^ 24) = 1 / 2 ^ 24"
    using fl_dyadic_div[of 1 24] by simp
  show "fl (1 + 1 / 2 ^ 24) = 1 + 1 / 2 ^ 24"
    using fl_dyadic_div[of "2 ^ 24 + 1" 24] by simp
  show "fl (1 - 1 / 2 ^ 24) = 1 - 1 / 2 ^ 24"
    using fl_dyadic_div[of "2 ^ 24 - 1" 24] by simp
  show "fround32 (1 + 1 / 2 ^ 24) = 1"
    by (subst fround32_pos_eval[of _ 23]) (simp_all add: round_even_def)
  show "fround32 (1 - 1 / 2 ^ 24) = 1 - 1 / 2 ^ 24"
    using fround32_dyadic_div[of "2 ^ 24 - 1" 24] by simp
qed

lemma performFFT_half_ulp:
  "complexValues (performFFT [Fin 1, Fin (1 / 2 ^ 24)])
     = [Fin 1, Fin 0, Fin (1 - 1 / 2 ^ 24), Fin 0]"
proof -
  have a: "fl (1 + fl (fl (1 / 2 ^ 24))) = 1 + 1 / 2 ^ 24"
    by (simp only: half_ulp_sample)
  have b: "fl (1 - fl (fl (1 / 2 ^ 24))) = 1 - 1 / 2 ^ 24"
    by (simp only: half_ulp_sample)
  have c: "store32 (Fin (1 + 1 / 2 ^ 24)) = Fin 1"
    by (simp only: store32.simps half_ulp_sample) simp
  have d: "store32 (Fin (1 - 1 / 2 ^ 24)) = Fin (1 - 1 / 2 ^ 24)"
    by (simp only: store32.simps half_ulp_sample) simp
  show ?thesis
    unfolding performFFT_two[OF half_ulp_sample(1,2)] a b c d ..
qed

lemma large_sample:
  "store32 (Fin (2 ^ 127)) = Fin (2 ^ 127)" "fl (2 ^ 127) = 2 ^ 127" "fl (2 ^ 128) = 2 ^ 128"
  "store32 (Fin (2 ^ 128)) = PosInf"
proof -
  have p: "(2::real) powr 127 = 2 ^ 127" "(2::real) powr 128 = 2 ^ 128"
    using powr_realpow[of 2 127] powr_realpow[of 2 128] by simp_all
  have "fround32 (2 ^ 127) = 2 ^ 127"
    using fround32_dyadic[of 1 127] by (simp add: p)
  then show "store32 (Fin (2 ^ 127)) = Fin (2 ^ 127)"
    by simp
  show "fl (2 ^ 127) = 2 ^ 127"
    using fl_dyadic[of 1 127] by (simp add: p)
  show "fl (2 ^ 128) = 2 ^ 128"
    using fl_dyadic[of 1 128] by (simp add: p)
  have "fround32 (2 ^ 128) = 2 ^ 128"
    using fround32_dyadic[of 1 128] by (simp add: p)
  then show "store32 (Fin (2 ^ 128)) = PosInf"
    by simp
qed

lemma performFFT_large:
  "complexValues (performFFT [Fin (2 ^ 127), Fin (2 ^ 127)]) = [PosInf, Fin 0, Fin 0, Fin 0]"
proof -
  have a: "fl (2 ^ 127 + fl (fl (2 ^ 127))) = 2 ^ 128"
  proof -
    have "(2::real) ^ 127 + 2 ^ 127 = 2 ^ 128" by simp
    then show ?thesis by (simp only: large_sample)
  qed
  have b: "fl (2 ^ 127 - fl (fl (2 ^ 127))) = 0"
    by (simp only: large_sample diff_self fl_zero)
  show ?thesis
    unfolding performFFT_two[OF large_sample(1) large_sample(1)] a b large_sample(4) store32_zero ..
qed

lemma dft_two: "dft 2 x 0 = of_real (x 0 + x 1)"
  by (simp add: dft_def numeral_2_eq_2)

subsection \<open>The spectrum up to rounding\<close>

text \<open>
  Claim C2. For a frame of \<open>N = 2^m\<close> real samples (\<open>m \<le> 31\<close>, no sample above \<open>A\<close> in
  magnitude, \<open>1 \<le> A \<le> 2^64\<close>) \<open>performFFT\<close> returns \<open>N\<close> interleaved pairs of finite
  numbers, and pair \<open>k\<close> is within \<open>N (m + 1) A / 2^22\<close> of the sum over \<open>j\<close> of
  \<open>sample[j] * e^(-2 pi i j k / N)\<close>: the twiddle factors are binary64 values of
  \<open>Math.cos\<close> and \<open>Math.sin\<close> and every intermediate is stored in a \<open>Float32Array\<close>, so
  the sum itself is not returned in general. The result is that of the passes of sizes
  \<open>2, 4, ..., N\<close> on the bit-reversed frame, in which position \<open>i\<close> holds
  \<open>sample[reverseBits(i, log2 N)]\<close>, rounded to binary32, with imaginary part 0.
\<close>

theorem performFFT_approximates_dft:
  fixes samples :: "real list"
  assumes "length samples = 2 ^ m" and "m \<le> 31"
    and "\<forall>x \<in> set samples. \<bar>x\<bar> \<le> A" and "1 \<le> A" and "A \<le> 2 ^ 64"
  shows "fft_size (performFFT (map Fin samples)) = 2 ^ m
       \<and> length (complexValues (performFFT (map Fin samples))) = 2 * 2 ^ m
       \<and> (\<forall>k < 2 ^ m. \<exists>re im.
            complexValues (performFFT (map Fin samples)) ! (2 * k) = Fin re \<and>
            complexValues (performFFT (map Fin samples)) ! (2 * k + 1) = Fin im \<and>
            cmod (Complex re im
                  - (\<Sum>j < 2 ^ m. of_real (samples ! j)
                                     * cis (- 2 * pi * real j * real k / real (2 ^ m :: nat))))
              \<le> 2 ^ m * (real m + 1) * A / 2 ^ 22)
       \<and> complexValues (performFFT (map Fin samples))
           = fftPasses (2 ^ m) 2 (bitReverse (map Fin samples))
       \<and> (\<forall>i < 2 ^ m.
            0 \<le> reverseBits i (log 2 (real (2 ^ m :: nat))) \<and>
            reverseBits i (log 2 (real (2 ^ m :: nat))) < 2 ^ m \<and>
            bitReverse (map Fin samples) ! (2 * i)
              = Fin (fround32 (samples ! nat (reverseBits i (log 2 (real (2 ^ m :: nat)))))) \<and>
            bitReverse (map Fin samples) ! (2 * i + 1) = Fin 0)"
proof (intro conjI allI impI)
  note fft = performFFT_close[OF assms]
  show "fft_size (performFFT (map Fin samples)) = 2 ^ m"
    by (simp add: performFFT_def Let_def assms(1))
  show "length (complexValues (performFFT (map Fin samples))) = 2 * 2 ^ m"
    using all_finite_length[OF fft(1)] by simp
  show "complexValues (performFFT (map Fin samples))
           = fftPasses (2 ^ m) 2 (bitReverse (map Fin samples))"
    by (simp add: performFFT_def Let_def assms(1))
next
  fix k :: nat assume k: "k < 2 ^ m"
  note fft = performFFT_close[OF assms]
  let ?cv = "complexValues (performFFT (map Fin samples))"
  let ?s = "\<Sum>j < 2 ^ m. of_real (samples ! j)
                * cis (- 2 * pi * real j * real k / real (2 ^ m :: nat))"
  have e: "stage_err m * A = 2 ^ m * (real m + 1) * A / 2 ^ 22"
    by (simp add: stage_err_def eps32_def)
  have "cmod (cval ?cv k - dft (2 ^ m) (\<lambda>j. samples ! j) k) \<le> stage_err m * A"
    using fft(2) k by blast
  then have "cmod (Complex (Re (cval ?cv k)) (Im (cval ?cv k)) - ?s)
      \<le> 2 ^ m * (real m + 1) * A / 2 ^ 22"
    by (simp only: e dft_def complex_surj)
  with cval_parts[OF fft(1) k]
  show "\<exists>re im. ?cv ! (2 * k) = Fin re \<and> ?cv ! (2 * k + 1) = Fin im \<and>
      cmod (Complex re im - ?s) \<le> 2 ^ m * (real m + 1) * A / 2 ^ 22"
    by blast
next
  fix i :: nat assume i: "i < 2 ^ m"
  have b126: "\<bar>samples ! j\<bar> \<le> 2 ^ 126" if "j < 2 ^ m" for j
  proof -
    have "\<bar>samples ! j\<bar> \<le> A" using assms(1,3) that by simp
    moreover have "(2::real) ^ 64 \<le> 2 ^ 126" by simp
    ultimately show ?thesis using assms(5) by linarith
  qed
  have br: "all_finite (bitReverse (map Fin samples)) (2 ^ m)"
    "\<And>q. q < 2 ^ m \<Longrightarrow>
       cval (bitReverse (map Fin samples)) q = Complex (fround32 (samples ! bitrev m q 0)) 0"
    using bitReverse_cval[of samples m] assms(1,2) b126 by blast+
  note rb = reverseBits_power[OF assms(2) i]
  show "0 \<le> reverseBits i (log 2 (real (2 ^ m :: nat)))"
    unfolding rb by simp
  show "reverseBits i (log 2 (real (2 ^ m :: nat))) < 2 ^ m"
    unfolding rb using bitrev_less[of m i] by (metis of_nat_less_iff of_nat_numeral of_nat_power)
  show "bitReverse (map Fin samples) ! (2 * i)
      = Fin (fround32 (samples ! nat (reverseBits i (log 2 (real (2 ^ m :: nat))))))"
    using cval_parts(1)[OF br(1) i] br(2)[OF i] unfolding rb by simp
  show "bitReverse (map Fin samples) ! (2 * i + 1) = Fin 0"
    using cval_parts(2)[OF br(1) i] br(2)[OF i] by simp
qed

theorem performFFT_approximates_dft_witness:
  "length [1, 1 / 2 ^ 24 :: real] = 2 ^ 1 \<and> (1::nat) \<le> 31
     \<and> \<bar>1::real\<bar> \<le> 1 \<and> \<bar>1 / 2 ^ 24 :: real\<bar> \<le> 1 \<and> (1::real) \<le> 1 \<and> (1::real) \<le> 2 ^ 64
     \<and> complexValues (performFFT (map Fin [1, 1 / 2 ^ 24])) ! (2 * 0) = Fin 1
     \<and> complexValues (performFFT (map Fin [1, 1 / 2 ^ 24])) ! (2 * 0 + 1) = Fin 0
     \<and> cmod (Complex 1 0
              - (\<Sum>j < 2 ^ 1. of_real ([1, 1 / 2 ^ 24] ! j)
                                 * cis (- 2 * pi * real j * real (0::nat) / real (2 ^ 1 :: nat))))
          \<le> 2 ^ 1 * (real 1 + 1) * 1 / 2 ^ 22
     \<and> complexValues (performFFT (map Fin [1, 1 / 2 ^ 24])) ! (2 * 1) = Fin (1 - 1 / 2 ^ 24)
     \<and> complexValues (performFFT (map Fin [1, 1 / 2 ^ 24])) ! (2 * 1 + 1) = Fin 0
     \<and> cmod (Complex (1 - 1 / 2 ^ 24) 0
              - (\<Sum>j < 2 ^ 1. of_real ([1, 1 / 2 ^ 24] ! j)
                                 * cis (- 2 * pi * real j * real (1::nat) / real (2 ^ 1 :: nat))))
          \<le> 2 ^ 1 * (real 1 + 1) * 1 / 2 ^ 22"
proof -
  let ?xs = "[1, 1 / 2 ^ 24 :: real]"
  let ?cv = "complexValues (performFFT (map Fin ?xs))"
  let ?s = "\<lambda>k::nat. \<Sum>j < 2 ^ 1. of_real (?xs ! j)
                * cis (- 2 * pi * real j * real k / real (2 ^ 1 :: nat))"
  have len: "length ?xs = 2 ^ 1" by simp
  have bnd: "\<forall>x \<in> set ?xs. \<bar>x\<bar> \<le> 1" by simp
  have p: "(1::nat) \<le> 31" "(1::real) \<le> 1" "(1::real) \<le> 2 ^ 64" by simp_all
  have cv: "?cv = [Fin 1, Fin 0, Fin (1 - 1 / 2 ^ 24), Fin 0]"
    using performFFT_half_ulp by simp
  have near: "\<forall>k < 2 ^ 1. \<exists>re im. ?cv ! (2 * k) = Fin re \<and> ?cv ! (2 * k + 1) = Fin im \<and>
      cmod (Complex re im - ?s k) \<le> 2 ^ 1 * (real 1 + 1) * 1 / 2 ^ 22"
    by (rule performFFT_approximates_dft[of ?xs 1 1, OF len p(1) bnd p(2) p(3),
          THEN conjunct2, THEN conjunct2, THEN conjunct1])
  have k0: "cmod (Complex 1 0 - ?s 0) \<le> 2 ^ 1 * (real 1 + 1) * 1 / 2 ^ 22"
  proof -
    have "(0::nat) < 2 ^ 1" by simp
    from near[rule_format, OF this] obtain re im where "?cv ! (2 * 0) = Fin re" "?cv ! (2 * 0 + 1) = Fin im"
      and c: "cmod (Complex re im - ?s 0) \<le> 2 ^ 1 * (real 1 + 1) * 1 / 2 ^ 22"
      by blast
    then have "re = 1" "im = 0"
      unfolding cv by simp_all
    with c show ?thesis by simp
  qed
  have k1: "cmod (Complex (1 - 1 / 2 ^ 24) 0 - ?s 1) \<le> 2 ^ 1 * (real 1 + 1) * 1 / 2 ^ 22"
  proof -
    have "(1::nat) < 2 ^ 1" by simp
    from near[rule_format, OF this] obtain re im where "?cv ! (2 * 1) = Fin re" "?cv ! (2 * 1 + 1) = Fin im"
      and c: "cmod (Complex re im - ?s 1) \<le> 2 ^ 1 * (real 1 + 1) * 1 / 2 ^ 22"
      by blast
    then have "re = 1 - 1 / 2 ^ 24" "im = 0"
      unfolding cv by simp_all
    with c show ?thesis by simp
  qed
  have e: "?cv ! (2 * 0) = Fin 1" "?cv ! (2 * 0 + 1) = Fin 0"
    "?cv ! (2 * 1) = Fin (1 - 1 / 2 ^ 24)" "?cv ! (2 * 1 + 1) = Fin 0"
    unfolding cv by simp_all
  from len bnd e k0 k1 show ?thesis
    by (intro conjI) simp_all
qed

text \<open>
  The frame \<open>[1, 2^-24]\<close>: the sum for \<open>k = 0\<close> is \<open>1 + 2^-24\<close>, which lies half way between
  two binary32 numbers, and the array holds \<open>1\<close>. The frame \<open>[2^127, 2^127]\<close>: the sum for
  \<open>k = 0\<close> is \<open>2^128\<close>, and the array holds \<open>Infinity\<close>.
\<close>

theorem performFFT_differs_from_dft:
  "complexValues (performFFT (map Fin [1, 1 / 2 ^ 24]))
       = [Fin 1, Fin 0, Fin (1 - 1 / 2 ^ 24), Fin 0]
     \<and> (\<Sum>j < 2 ^ 1. of_real ([1, 1 / 2 ^ 24] ! j)
                        * cis (- 2 * pi * real j * real (0::nat) / real (2 ^ 1 :: nat)))
         = Complex (1 + 1 / 2 ^ 24) 0
     \<and> complexValues (performFFT (map Fin [1, 1 / 2 ^ 24])) ! (2 * 0)
         \<noteq> Fin (Re (\<Sum>j < 2 ^ 1. of_real ([1, 1 / 2 ^ 24] ! j)
                        * cis (- 2 * pi * real j * real (0::nat) / real (2 ^ 1 :: nat))))
     \<and> complexValues (performFFT (map Fin [2 ^ 127, 2 ^ 127])) = [PosInf, Fin 0, Fin 0, Fin 0]
     \<and> (\<Sum>j < 2 ^ 1. of_real ([2 ^ 127, 2 ^ 127] ! j)
                        * cis (- 2 * pi * real j * real (0::nat) / real (2 ^ 1 :: nat)))
         = Complex (2 ^ 128) 0"
proof -
  have cv: "complexValues (performFFT (map Fin [1, 1 / 2 ^ 24]))
      = [Fin 1, Fin 0, Fin (1 - 1 / 2 ^ 24), Fin 0]"
    using performFFT_half_ulp by simp
  have s: "(\<Sum>j < 2 ^ 1. of_real ([1, 1 / 2 ^ 24] ! j)
                        * cis (- 2 * pi * real j * real (0::nat) / real (2 ^ 1 :: nat)))
         = Complex (1 + 1 / 2 ^ 24) 0"
    by (simp add: numeral_2_eq_2 complex_eq_iff)
  have big: "complexValues (performFFT (map Fin [2 ^ 127, 2 ^ 127])) = [PosInf, Fin 0, Fin 0, Fin 0]"
    using performFFT_large by simp
  have t: "(\<Sum>j < 2 ^ 1. of_real ([2 ^ 127, 2 ^ 127] ! j)
                        * cis (- 2 * pi * real j * real (0::nat) / real (2 ^ 1 :: nat)))
         = Complex (2 ^ 128) 0"
    by (simp add: numeral_2_eq_2 complex_eq_iff)
  have ne: "complexValues (performFFT (map Fin [1, 1 / 2 ^ 24])) ! (2 * 0)
         \<noteq> Fin (Re (\<Sum>j < 2 ^ 1. of_real ([1, 1 / 2 ^ 24] ! j)
                        * cis (- 2 * pi * real j * real (0::nat) / real (2 ^ 1 :: nat))))"
    unfolding cv s by simp
  from cv s ne big t show ?thesis
    by (intro conjI)
qed

section \<open>The Hanning window of every frame\<close>

subsection \<open>Rounding near a known value\<close>

lemma round_even_near:
  assumes "\<bar>y - of_int n\<bar> < 1/2"
  shows "round_even y = n"
proof (cases "of_int n \<le> y")
  case True
  then have "\<lfloor>y\<rfloor> = n" using assms by linarith
  then show ?thesis using assms True by (simp add: round_even_def Let_def)
next
  case False
  then have f: "\<lfloor>y\<rfloor> = n - 1" using assms by linarith
  have "1/2 < y - of_int (n - 1)" using assms False by simp
  then show ?thesis using f by (simp add: round_even_def Let_def)
qed

lemma fround32_near:
  fixes k :: nat
  assumes "2 ^ 23 \<le> x * 2 ^ k" "x * 2 ^ k < 2 ^ 24" "k \<le> 149"
    and "\<bar>x * 2 ^ k - of_int n\<bar> < 1/2"
  shows "fround32 x = of_int n / 2 ^ k"
  using fround32_pos_eval[OF assms(1-3)] round_even_near[OF assms(4)] by simp

lemma fl_near_one:
  assumes "1 - 1 / 2 ^ 54 \<le> x" "x \<le> 1"
  shows "fl x = 1"
proof (cases "x = 1")
  case True
  then show ?thesis by simp
next
  case False
  define y where "y = x * 2 ^ 53"
  have lo: "2 ^ 53 - 1/2 \<le> y" and hi: "y < 2 ^ 53"
    using assms False by (simp_all add: y_def field_simps)
  have f: "\<lfloor>y\<rfloor> = 2 ^ 53 - 1"
  proof (rule floor_unique)
    show "of_int (2 ^ 53 - 1) \<le> y" using lo by simp
    show "y < of_int (2 ^ 53 - 1) + 1" using hi by simp
  qed
  have "1/2 \<le> y - of_int \<lfloor>y\<rfloor>"
    using lo unfolding f by simp
  moreover have "odd (2 ^ 53 - 1 :: int)" by simp
  ultimately have r: "round_even y = 2 ^ 53"
    unfolding round_even_def Let_def f by auto
  have "2 ^ 52 \<le> x * 2 ^ 53" "x * 2 ^ 53 < 2 ^ 53"
    using lo hi by (simp_all add: y_def)
  from fl_pos_eval[OF this] r show ?thesis
    by (simp add: y_def)
qed

lemma fl_step:
  assumes "\<bar>x - c\<bar> \<le> d" "\<bar>c\<bar> + d \<le> 32"
  shows "\<bar>fl x - c\<bar> \<le> d + 1 / 2 ^ 48"
proof -
  have "\<bar>x\<bar> \<le> 32" using assms by linarith
  then have "\<bar>x\<bar> / 2 ^ 53 \<le> 32 / 2 ^ 53"
    by (intro divide_right_mono) simp_all
  with fl_err[of x] have "\<bar>fl x - x\<bar> \<le> 1 / 2 ^ 48" by simp
  with assms(1) show ?thesis by linarith
qed

lemma cos_240: "cos (4 * pi / 3) = - 1 / 2"
  using cos_periodic[of "- (2 * pi / 3)"] cos_120 by (simp add: field_simps)

lemma one_minus_cos_le: "1 - cos x \<le> x\<^sup>2 / 2" for x :: real
proof -
  have "cos x = 1 - 2 * (sin (x / 2))\<^sup>2"
    using cos_double_sin[of "x / 2"] by simp
  moreover have "(sin (x / 2))\<^sup>2 \<le> (x / 2)\<^sup>2"
    using abs_sin_x_le_abs_x[of "x / 2"] by (simp add: abs_le_square_iff[symmetric])
  ultimately show ?thesis
    by (simp add: power2_eq_square field_simps)
qed

subsection \<open>A Hanning window of four samples\<close>

lemma hanning_value_four:
  "windowValue HANNING i 4
     = Fin (fl (1/2 * fl (1 - fl (cos (fl (fl (fl (2 * Math_PI) * real i) / 3))))))"
  by (simp add: windowPhase_def mul64_def sub64_def div64_def Math_cos_def)

lemma hanning_angle_four:
  assumes "i \<le> 3"
  shows "\<bar>fl (fl (fl (2 * Math_PI) * real i) / 3) - 2 * pi * real i / 3\<bar> \<le> 4 / 2 ^ 48"
proof -
  define u :: real where "u = 1 / 2 ^ 48"
  have u: "0 < u" "u \<le> 1 / 8"
    by (simp_all add: u_def)
  have step: "\<bar>fl x - c\<bar> \<le> d + u" if "\<bar>x - c\<bar> \<le> d" "\<bar>c\<bar> + d \<le> 32" for x c d
    using fl_step[OF that] by (simp add: u_def)
  have p: "0 < pi" "pi < 4"
    using pi_gt_zero pi_less_4 by simp_all
  have i: "0 \<le> real i" "real i \<le> 3"
    using assms by simp_all
  have "\<bar>Math_PI - pi\<bar> \<le> u / 2"
    using Math_PI_err by (simp add: u_def)
  then have "\<bar>2 * Math_PI - 2 * pi\<bar> \<le> u"
    by linarith
  from step[OF this] have a: "\<bar>fl (2 * Math_PI) - 2 * pi\<bar> \<le> 2 * u"
    using p u by simp
  have "\<bar>fl (2 * Math_PI) * real i - 2 * pi * real i\<bar> = \<bar>fl (2 * Math_PI) - 2 * pi\<bar> * real i"
    using i by (simp add: abs_mult left_diff_distrib[symmetric] del: of_nat_mult)
  also have "\<dots> \<le> (2 * u) * 3"
    using a i by (intro mult_mono) simp_all
  finally have b0: "\<bar>fl (2 * Math_PI) * real i - 2 * pi * real i\<bar> \<le> 6 * u"
    by simp
  have pi_i: "\<bar>2 * pi * real i\<bar> \<le> 24"
  proof -
    have "2 * pi * real i \<le> (2 * 4) * 3"
      using p i by (intro mult_mono) simp_all
    moreover have "0 \<le> 2 * pi * real i"
      using p i by simp
    ultimately show ?thesis by simp
  qed
  from step[OF b0] have b: "\<bar>fl (fl (2 * Math_PI) * real i) - 2 * pi * real i\<bar> \<le> 7 * u"
    using pi_i u by simp
  then have c0: "\<bar>fl (fl (2 * Math_PI) * real i) / 3 - 2 * pi * real i / 3\<bar> \<le> 3 * u"
    using u by (simp add: diff_divide_distrib[symmetric])
  have "\<bar>2 * pi * real i / 3\<bar> \<le> 8"
    using pi_i by simp
  with step[OF c0] have "\<bar>fl (fl (fl (2 * Math_PI) * real i) / 3) - 2 * pi * real i / 3\<bar> \<le> 4 * u"
    using u by simp
  then show ?thesis
    by (simp add: u_def)
qed

text \<open>
  Where the exact cosine is \<open>-1/2\<close>, the coefficient is within \<open>2^-46\<close> of \<open>3/4\<close>.
\<close>

lemma hanning_coefficient_near:
  assumes "\<bar>a - t\<bar> \<le> 4 / 2 ^ 48" "cos t = - 1 / 2"
  shows "\<bar>fl (1/2 * fl (1 - fl (cos a))) - 3/4\<bar> \<le> 4 / 2 ^ 48"
proof -
  define u :: real where "u = 1 / 2 ^ 48"
  have u: "0 < u" "u \<le> 1 / 8"
    by (simp_all add: u_def)
  have step: "\<bar>fl x - c\<bar> \<le> d + u" if "\<bar>x - c\<bar> \<le> d" "\<bar>c\<bar> + d \<le> 32" for x c d
    using fl_step[OF that] by (simp add: u_def)
  have "\<bar>cos a - cos t\<bar> \<le> 4 * u"
    using cos_lipschitz[of a t] assms(1) by (simp add: u_def)
  then have "\<bar>cos a - (- 1 / 2)\<bar> \<le> 4 * u"
    by (simp only: assms(2))
  from step[OF this] have c: "\<bar>fl (cos a) - (- 1 / 2)\<bar> \<le> 5 * u"
    using u by simp
  then have "\<bar>(1 - fl (cos a)) - 3 / 2\<bar> \<le> 5 * u"
    by linarith
  from step[OF this] have s: "\<bar>fl (1 - fl (cos a)) - 3 / 2\<bar> \<le> 6 * u"
    using u by simp
  then have "\<bar>1/2 * fl (1 - fl (cos a)) - 3 / 4\<bar> \<le> 3 * u"
    by linarith
  from step[OF this] have "\<bar>fl (1/2 * fl (1 - fl (cos a))) - 3 / 4\<bar> \<le> 4 * u"
    using u by simp
  then show ?thesis
    by (simp add: u_def)
qed

text \<open>
  Where the exact cosine is \<open>1\<close>, the computed cosine is \<open>1\<close> and the coefficient is \<open>0\<close>.
\<close>

lemma hanning_coefficient_zero:
  assumes "\<bar>a - 2 * pi\<bar> \<le> 4 / 2 ^ 48"
  shows "fl (1/2 * fl (1 - fl (cos a))) = 0"
proof -
  define e where "e = a - 2 * pi"
  have "\<bar>e\<bar> \<le> 1 / 2 ^ 46"
    using assms by (simp add: e_def)
  then have "e\<^sup>2 \<le> (1 / 2 ^ 46)\<^sup>2"
    by (metis abs_le_square_iff abs_of_nonneg zero_le_divide_1_iff zero_le_numeral zero_le_power)
  then have e2: "e\<^sup>2 / 2 \<le> 1 / 2 ^ 54"
    by (simp add: power2_eq_square)
  have "cos a = cos e"
    using cos_periodic[of e] by (simp add: e_def)
  with one_minus_cos_le[of e] e2 have "1 - 1 / 2 ^ 54 \<le> cos a"
    by linarith
  then have "fl (cos a) = 1"
    by (rule fl_near_one) simp
  then show ?thesis
    by simp
qed

lemma store32_near:
  fixes k :: nat
  assumes "\<bar>x - of_int n / 2 ^ k\<bar> \<le> 1 / 2 ^ 44" "2 ^ 23 < n" "n < 2 ^ 24" "k \<le> 23"
  shows "store32 (Fin x) = Fin (of_int n / 2 ^ k)"
proof -
  define y where "y = x * 2 ^ k"
  have "(2::real) ^ k \<le> 2 ^ 23"
    using assms(4) by (intro power_increasing) simp_all
  then have k: "(2::real) ^ k / 2 ^ 44 \<le> 2 ^ 23 / 2 ^ 44"
    by (intro divide_right_mono) simp_all
  have "y - of_int n = (x - of_int n / 2 ^ k) * 2 ^ k"
    by (simp add: y_def field_simps)
  then have "\<bar>y - of_int n\<bar> = \<bar>x - of_int n / 2 ^ k\<bar> * 2 ^ k"
    by (simp add: abs_mult)
  also have "\<dots> \<le> 1 / 2 ^ 44 * 2 ^ k"
    using assms(1) by (intro mult_right_mono) simp_all
  finally have near: "\<bar>y - of_int n\<bar> \<le> 1 / 2 ^ 21"
    using k by simp
  then have half: "\<bar>y - of_int n\<bar> < 1/2"
    by (rule order_le_less_trans) simp
  have "(2::int) ^ 23 + 1 \<le> n" "n \<le> (2::int) ^ 24 - 1"
    using assms(2,3) by simp_all
  then have "real_of_int (2 ^ 23 + 1) \<le> of_int n" "real_of_int n \<le> of_int (2 ^ 24 - 1)"
    by (simp_all only: of_int_le_iff)
  then have n: "(2::real) ^ 23 + 1 \<le> of_int n" "of_int n \<le> (2::real) ^ 24 - 1"
    by simp_all
  have lo: "2 ^ 23 \<le> y" and hi: "y < 2 ^ 24"
    using half n by linarith+
  have f: "fround32 x = of_int n / 2 ^ k"
    using fround32_near[of x k n] lo hi half assms(4) by (simp add: y_def)
  have "0 \<le> (of_int n :: real) / 2 ^ k"
    using n by simp
  moreover have "(of_int n :: real) / 2 ^ k \<le> of_int n / 1"
    using n by (intro divide_left_mono) simp_all
  ultimately have "\<bar>(of_int n :: real) / 2 ^ k\<bar> < 2 ^ 128"
    using n by simp
  then show ?thesis
    unfolding store32.simps f by simp
qed

lemma hanning_four:
  "applyWindow [Fin 1, Fin 2, Fin 3, Fin 4] HANNING = [Fin 0, Fin (3/2), Fin (9/4), Fin 0]"
proof -
  let ?w = "\<lambda>i::nat. fl (1/2 * fl (1 - fl (cos (fl (fl (fl (2 * Math_PI) * real i) / 3)))))"
  have w0: "?w 0 = 0"
    by simp
  have w1: "\<bar>?w 1 - 3/4\<bar> \<le> 4 / 2 ^ 48"
    using hanning_coefficient_near[OF hanning_angle_four[of 1]] cos_120 by simp
  have w2: "\<bar>?w 2 - 3/4\<bar> \<le> 4 / 2 ^ 48"
    using hanning_coefficient_near[OF hanning_angle_four[of 2]] cos_240 by simp
  have w3: "?w 3 = 0"
  proof -
    have "\<bar>fl (fl (fl (2 * Math_PI) * real (3::nat)) / 3) - 2 * pi\<bar> \<le> 4 / 2 ^ 48"
      using hanning_angle_four[of 3] by simp
    from hanning_coefficient_zero[OF this] show ?thesis
      by simp
  qed
  have s1: "store32 (Fin (fl (2 * ?w 1))) = Fin (3/2)"
  proof -
    have "\<bar>2 * ?w 1 - 3/2\<bar> \<le> 8 / 2 ^ 48"
      using w1 by linarith
    from fl_step[OF this] have n: "\<bar>fl (2 * ?w 1) - 3/2\<bar> \<le> 1 / 2 ^ 44"
      by simp
    have e: "real_of_int 12582912 / 2 ^ 23 = 3/2"
      by simp
    have "store32 (Fin (fl (2 * ?w 1))) = Fin (real_of_int 12582912 / 2 ^ 23)"
    proof (rule store32_near)
      show "\<bar>fl (2 * ?w 1) - real_of_int 12582912 / 2 ^ 23\<bar> \<le> 1 / 2 ^ 44"
        unfolding e by (rule n)
    qed simp_all
    then show ?thesis
      unfolding e .
  qed
  have s2: "store32 (Fin (fl (3 * ?w 2))) = Fin (9/4)"
  proof -
    have "\<bar>3 * ?w 2 - 9/4\<bar> \<le> 12 / 2 ^ 48"
      using w2 by linarith
    from fl_step[OF this] have n: "\<bar>fl (3 * ?w 2) - 9/4\<bar> \<le> 1 / 2 ^ 44"
      by simp
    have e: "real_of_int 9437184 / 2 ^ 22 = 9/4"
      by simp
    have "store32 (Fin (fl (3 * ?w 2))) = Fin (real_of_int 9437184 / 2 ^ 22)"
    proof (rule store32_near)
      show "\<bar>fl (3 * ?w 2) - real_of_int 9437184 / 2 ^ 22\<bar> \<le> 1 / 2 ^ 44"
        unfolding e by (rule n)
    qed simp_all
    then show ?thesis
      unfolding e .
  qed
  have idx: "[0..<4] = [0, 1, 2, 3::nat]"
    by (simp add: upt_rec)
  have len: "length [Fin 1, Fin 2, Fin 3, Fin 4] = 4"
    by simp
  have el: "[Fin 1, Fin 2, Fin 3, Fin 4] ! 0 = Fin 1" "[Fin 1, Fin 2, Fin 3, Fin 4] ! 1 = Fin 2"
    "[Fin 1, Fin 2, Fin 3, Fin 4] ! 2 = Fin 3" "[Fin 1, Fin 2, Fin 3, Fin 4] ! 3 = Fin 4"
    by simp_all
  have v: "store32 (mul64 (Fin x) (windowValue HANNING i 4)) = store32 (Fin (fl (x * ?w i)))" for x i
    unfolding hanning_value_four by (simp add: mul64_def)
  have "applyWindow [Fin 1, Fin 2, Fin 3, Fin 4] HANNING
      = [store32 (Fin (fl (1 * ?w 0))), store32 (Fin (fl (2 * ?w 1))),
         store32 (Fin (fl (3 * ?w 2))), store32 (Fin (fl (4 * ?w 3)))]"
    unfolding applyWindow_map len idx by (simp only: list.map el v)
  also have "\<dots> = [Fin 0, Fin (3/2), Fin (9/4), Fin 0]"
    unfolding s1 s2 w0 w3 by simp
  finally show ?thesis .
qed

subsection \<open>The window of the frame loop\<close>

text \<open>
  The start sample is the floor of the rounded product. For the start time
  \<open>2048 / 96\<close> seconds (a binary64 quotient) at 44100 Hz the product rounds up to the integer
  940800, although the exact product of the two binary64 numbers is below it.
\<close>

lemma startFrame_rounded_product:
  "\<lfloor>fl (fl (2048 / 96) * 44100)\<rfloor> = 940800"
  "\<lfloor>fl (2048 / 96) * 44100\<rfloor> = 940799"
proof -
  have r1: "round_even (2048 / 96 * 2 ^ 48) = 6004799503160661"
    by (rule round_even_near) simp
  have "fl (2048 / 96) = of_int (round_even (2048 / 96 * 2 ^ 48)) / 2 ^ 48"
    by (rule fl_pos_eval) simp_all
  then have t: "fl (2048 / 96) = 6004799503160661 / 2 ^ 48"
    unfolding r1 by simp
  have r2: "round_even (6004799503160661 / 2 ^ 48 * 44100 * 2 ^ 33) = 8081410464153600"
    by (rule round_even_near) simp
  have "fl (6004799503160661 / 2 ^ 48 * 44100)
      = of_int (round_even (6004799503160661 / 2 ^ 48 * 44100 * 2 ^ 33)) / 2 ^ 33"
    by (rule fl_pos_eval) simp_all
  then have "fl (6004799503160661 / 2 ^ 48 * 44100) = 940800"
    unfolding r2 by simp
  then show "\<lfloor>fl (fl (2048 / 96) * 44100)\<rfloor> = 940800"
    unfolding t by simp
  show "\<lfloor>fl (2048 / 96) * 44100\<rfloor> = 940799"
    unfolding t by (rule floor_unique) simp_all
qed

lemma frameSamples_four:
  "frameSamples [Fin 1, Fin 2, Fin 3, Fin 4] 0 4 = [Fin 1, Fin 2, Fin 3, Fin 4]"
proof -
  have s: "store32 (Fin 1) = Fin 1" "store32 (Fin 2) = Fin 2" "store32 (Fin 3) = Fin 3"
    "store32 (Fin 4) = Fin 4"
    using fround32_of_int[of 1] fround32_of_int[of 2] fround32_of_int[of 3] fround32_of_int[of 4]
    by simp_all
  have idx: "[0..<4] = [0, 1, 2, 3::nat]"
    by (simp add: upt_rec)
  show ?thesis
    unfolding frameSamples_def Let_def
    by (simp add: idx ta_set_def ta_get_int_def ta_get_def numeral_eval s del: store32.simps)
qed

text \<open>
  Claim C10. Every frame of a computed spectrogram comes from the Hanning window: the
  windowed samples are \<open>samples[i] * 0.5 * (1 - cos (2 * pi * i / (N - 1)))\<close>, evaluated as
  the code evaluates it (each operation in binary64, the product stored as binary32), for
  the frame's slice of the audio, which starts at sample
  \<open>floor (startTime * sampleRate) + k * hopSize\<close>; the frame's bins are the decibel spectrum
  of their transform. \<open>calculateSpectrogram\<close> has no window parameter, so no other window
  is reached from it.
\<close>

theorem frames_are_hanning_windowed:
  assumes "calculateSpectrogram audioData startTime dur fftSize hopSize = Returns sd"
    and "k < length (sd_frames sd)"
  shows "\<exists>frame ps.
      frame = frameSamples (ad_samples audioData)
                (\<lfloor>fl (startTime * ad_sampleRate audioData)\<rfloor> + int k * int hopSize) fftSize
    \<and> length (applyWindow frame HANNING) = fftSize
    \<and> (\<forall>i < fftSize. applyWindow frame HANNING ! i
          = store32 (mul64 (frame ! i)
              (mul64 (Fin (1/2))
                 (sub64 (Fin 1)
                    (Math_cos (div64 (mul64 (mul64 (Fin 2) (Fin Math_PI)) (Fin (real i)))
                                     (Fin (real fftSize - 1))))))))
    \<and> calculatePowerSpectrum (performFFT (applyWindow frame HANNING)) fftSize = Inr ps
    \<and> frequencyBins (sd_frames sd ! k) = dbValues (convertToDBSpectrum ps fftSize)"
proof -
  let ?frame = "frameSamples (ad_samples audioData)
                (\<lfloor>fl (startTime * ad_sampleRate audioData)\<rfloor> + int k * int hopSize) fftSize"
  have hop: "0 < hopSize"
    using assms calculateSpectrogram_hop0[of audioData startTime dur fftSize sd] by (cases hopSize) auto
  from calculateSpectrogram_Returns(4)[OF hop assms]
  have fr: "spectrogramFrame audioData startTime \<lfloor>fl (startTime * ad_sampleRate audioData)\<rfloor>
         fftSize hopSize k = Inr (sd_frames sd ! k)" .
  from spectrogramFrame_Inr[OF this] obtain ps where
    ps: "calculatePowerSpectrum (performFFT (applyWindow ?frame HANNING)) fftSize = Inr ps"
    and bins: "frequencyBins (sd_frames sd ! k) = dbValues (convertToDBSpectrum ps fftSize)"
    by blast
  have "applyWindow ?frame HANNING ! i
          = store32 (mul64 (?frame ! i)
              (mul64 (Fin (1/2))
                 (sub64 (Fin 1)
                    (Math_cos (div64 (mul64 (mul64 (Fin 2) (Fin Math_PI)) (Fin (real i)))
                                     (Fin (real fftSize - 1)))))))"
    if "i < fftSize" for i
    using that by (simp add: applyWindow_map windowPhase_def)
  with ps bins show ?thesis
    by simp
qed

text \<open>
  The samples 1, 2, 3, 4 as one frame of length 4: the window is \<open>0, 3/4, 3/4, 0\<close> after
  rounding, and the stored products are \<open>0, 3/2, 9/4, 0\<close>.
\<close>

theorem frames_are_hanning_windowed_witness:
  "\<exists>sd. calculateSpectrogram \<lparr>ad_samples = [Fin 1, Fin 2, Fin 3, Fin 4], ad_sampleRate = 4, ad_duration = 1\<rparr>
           0 1 4 1 = Returns sd
      \<and> 0 < length (sd_frames sd)
      \<and> (\<exists>frame ps.
            frame = [Fin 1, Fin 2, Fin 3, Fin 4]
          \<and> applyWindow frame HANNING = [Fin 0, Fin (3/2), Fin (9/4), Fin 0]
          \<and> calculatePowerSpectrum (performFFT (applyWindow frame HANNING)) 4 = Inr ps
          \<and> frequencyBins (sd_frames sd ! 0) = dbValues (convertToDBSpectrum ps 4))"
proof -
  let ?a = "\<lparr>ad_samples = [Fin 1, Fin 2, Fin 3, Fin 4], ad_sampleRate = 4, ad_duration = 1\<rparr>"
  have "\<exists>sd. calculateSpectrogram ?a 0 1 4 1 = Returns sd"
    by (rule calculateSpectrogram_even) simp_all
  then obtain sd where sd: "calculateSpectrogram ?a 0 1 4 1 = Returns sd"
    by blast
  have len: "0 < length (sd_frames sd)"
    using calculateSpectrogram_Returns(3)[OF _ sd] by (simp add: frameCount_def fl_numeral)
  from frames_are_hanning_windowed[OF sd len] obtain frame ps where
    f: "frame = frameSamples (ad_samples ?a) (\<lfloor>fl (0 * ad_sampleRate ?a)\<rfloor> + int 0 * int 1) 4"
    and ps: "calculatePowerSpectrum (performFFT (applyWindow frame HANNING)) 4 = Inr ps"
    and bins: "frequencyBins (sd_frames sd ! 0) = dbValues (convertToDBSpectrum ps 4)"
    by blast
  from f have frame: "frame = [Fin 1, Fin 2, Fin 3, Fin 4]"
    by (simp add: frameSamples_four)
  have "applyWindow frame HANNING = [Fin 0, Fin (3/2), Fin (9/4), Fin 0]"
    unfolding frame by (rule hanning_four)
  with sd len frame ps bins show ?thesis
    by blast
qed

end
